theory Spec2Isabelle
  imports Complex_Main "HOL-Library.List_Lexorder" "HOL-Library.Char_ord"
begin

section \<open>Values\<close>

text \<open>
  The build script \<^verbatim>\<open>scripts/build-spec.ts\<close> works on the value that
  \<^verbatim>\<open>response.json()\<close> returns: a tree of objects, arrays, strings, numbers,
  booleans and \<^verbatim>\<open>null\<close>. Reading a property that is not there gives
  \<^verbatim>\<open>undefined\<close>, so \<open>JUndef\<close> is a value of the model as well.

  An object \<open>JObj kvs\<close> is the list of its own enumerable properties, each key once,
  in the order in which \<^verbatim>\<open>Object.entries\<close> lists them; \<open>map_of kvs\<close> reads
  an own property. A key named \<^verbatim>\<open>__proto__\<close> is an own property like any other
  in a parsed document. Strings are lists of characters, and numbers are real numbers (the
  script never computes with a number of the document).

  A property read goes on to the built-in prototypes when the value has no own property
  of that name, and there it can reach the objects of the language itself: functions
  such as \<^verbatim>\<open>Object\<close> (from \<^verbatim>\<open>constructor\<close>), the prototype objects
  (from \<^verbatim>\<open>__proto__\<close>), the methods of arrays and strings. \<open>JBuiltin kind
  name\<close> stands for such an object. Its kind says what the script can tell of it:
  \<^verbatim>\<open>typeof\<close> is \<^verbatim>\<open>function\<close> for a \<open>BuiltinFunction\<close>,
  \<^verbatim>\<open>Array.isArray\<close> holds of a \<open>BuiltinArray\<close> (the array prototype), and a
  \<open>BuiltinObject\<close> is any other object. A built-in object has no enumerable own
  property, no element and no property \<^verbatim>\<open>$ref\<close>.
\<close>

datatype builtinKind = BuiltinFunction | BuiltinArray | BuiltinObject

datatype json =
    JUndef
  | JNull
  | JBool bool
  | JNum real
  | JStr string
  | JArr "json list"
  | JObj "(string \<times> json) list"
  | JBuiltin builtinKind string

text \<open>The only exception that the modelled code can raise is a \<^verbatim>\<open>TypeError\<close>:
  reading a property of \<^verbatim>\<open>undefined\<close> or \<^verbatim>\<open>null\<close>, calling what is no
  function, spreading what is not iterable, or an accessor of a built-in object that
  throws.\<close>

datatype error = TypeError

text \<open>JavaScript's truthiness, as \<^verbatim>\<open>if (x)\<close>, \<^verbatim>\<open>!x\<close> and
  \<^verbatim>\<open>x || y\<close> test it.\<close>

fun truthy :: "json \<Rightarrow> bool" where
  "truthy JUndef = False"
| "truthy JNull = False"
| "truthy (JBool b) = b"
| "truthy (JNum n) = (n \<noteq> 0)"
| "truthy (JStr s) = (s \<noteq> [])"
| "truthy (JArr xs) = True"
| "truthy (JObj kvs) = True"
| "truthy (JBuiltin kind name) = True"

subsection \<open>The host\<close>

text \<open>
  What a read finds on the built-in prototypes, and how a string is put in lower case,
  is given by the JavaScript engine and not by the script. The model takes both as a
  parameter \<open>h\<close>, so that every property below holds for every engine.
  \<open>hostGet h r k\<close> is the result of reading the inherited member \<open>k\<close> on a
  receiver of the sort \<open>r\<close> (a plain object, an array, a string, a number, a
  boolean, or a built-in object itself): a primitive value, a built-in object, or a
  raised \<^verbatim>\<open>TypeError\<close>. \<open>lowerCase h\<close> is
  \<^verbatim>\<open>String.prototype.toLowerCase\<close>.

  \<open>hostPut h f k\<close> is the outcome of an assignment \<^verbatim>\<open>o[k] = v\<close> to a
  plain object \<open>o\<close> when the search for \<open>k\<close> along the prototype chain of
  \<open>o\<close> finds it in no plain object and comes to the built-in function \<open>f\<close>:
  the property is created, or the assignment has no effect, or it raises a
  \<^verbatim>\<open>TypeError\<close> (a read-only member such as \<^verbatim>\<open>name\<close> in strict
  code, an accessor that throws such as \<^verbatim>\<open>caller\<close>).
\<close>

datatype receiver =
    OfObject
  | OfArray
  | OfString
  | OfNumber
  | OfBoolean
  | OfBuiltin builtinKind string

datatype hostValue =
    HUndefined
  | HNull
  | HBoolean bool
  | HNumber real
  | HString string
  | HBuiltin builtinKind string

datatype putOutcome = Stored | Ignored | Raised

record host =
  hostGet :: "receiver \<Rightarrow> string \<Rightarrow> error + hostValue"
  hostPut :: "string \<Rightarrow> string \<Rightarrow> putOutcome"
  lowerCase :: "string \<Rightarrow> string"

fun fromHost :: "hostValue \<Rightarrow> json" where
  "fromHost HUndefined = JUndef"
| "fromHost HNull = JNull"
| "fromHost (HBoolean b) = JBool b"
| "fromHost (HNumber n) = JNum n"
| "fromHost (HString s) = JStr s"
| "fromHost (HBuiltin kind name) = JBuiltin kind name"

definition viaHost :: "host \<Rightarrow> receiver \<Rightarrow> string \<Rightarrow> error + json" where
  "viaHost h r k = (case hostGet h r k of Inl e \<Rightarrow> Inl e | Inr v \<Rightarrow> Inr (fromHost v))"

subsection \<open>Reading a property\<close>

text \<open>
  An array index is a decimal numeral without sign and without leading zero; any other
  key of an array or of a string is an ordinary property name.
\<close>

definition digitVal :: "char \<Rightarrow> nat option" where
  "digitVal c =
     (let n = (of_char c :: nat) in if 48 \<le> n \<and> n \<le> 57 then Some (n - 48) else None)"

fun decimal :: "nat \<Rightarrow> string \<Rightarrow> nat option" where
  "decimal acc [] = Some acc"
| "decimal acc (c # cs) =
     (case digitVal c of None \<Rightarrow> None | Some d \<Rightarrow> decimal (10 * acc + d) cs)"

definition arrayIndex :: "string \<Rightarrow> nat option" where
  "arrayIndex k =
     (if k = [] then None
      else if hd k = CHR ''0'' \<and> tl k \<noteq> [] then None
      else decimal 0 k)"

text \<open>
  \<open>ownProp v k\<close> is the own property \<open>k\<close> of \<open>v\<close>, if there is one:
  a key of an object, an index or \<^verbatim>\<open>length\<close> of an array or of a string.
\<close>

fun ownProp :: "json \<Rightarrow> string \<Rightarrow> json option" where
  "ownProp (JObj kvs) k = map_of kvs k"
| "ownProp (JArr xs) k =
     (if k = ''length'' then Some (JNum (real (length xs)))
      else case arrayIndex k of
             Some i \<Rightarrow> if i < length xs then Some (xs ! i) else None
           | None \<Rightarrow> None)"
| "ownProp (JStr s) k =
     (if k = ''length'' then Some (JNum (real (length s)))
      else case arrayIndex k of
             Some i \<Rightarrow> if i < length s then Some (JStr [s ! i]) else None
           | None \<Rightarrow> None)"
| "ownProp v k = None"

fun receiverOf :: "json \<Rightarrow> receiver option" where
  "receiverOf JUndef = None"
| "receiverOf JNull = None"
| "receiverOf (JBool b) = Some OfBoolean"
| "receiverOf (JNum n) = Some OfNumber"
| "receiverOf (JStr s) = Some OfString"
| "receiverOf (JArr xs) = Some OfArray"
| "receiverOf (JObj kvs) = Some OfObject"
| "receiverOf (JBuiltin kind name) = Some (OfBuiltin kind name)"

text \<open>
  \<open>getMember h v k\<close> is \<^verbatim>\<open>v[k]\<close>: a \<^verbatim>\<open>TypeError\<close> on
  \<^verbatim>\<open>undefined\<close> and \<^verbatim>\<open>null\<close>, the own property when there is one,
  and what the host finds on the prototype chain otherwise. \<open>getProp h v k\<close> is
  \<^verbatim>\<open>v?.[k]\<close>, which gives \<^verbatim>\<open>undefined\<close> on \<^verbatim>\<open>undefined\<close> and
  \<^verbatim>\<open>null\<close> instead of raising.
\<close>

definition getMember :: "host \<Rightarrow> json \<Rightarrow> string \<Rightarrow> error + json" where
  "getMember h v k =
     (case receiverOf v of
        None \<Rightarrow> Inl TypeError
      | Some r \<Rightarrow> (case ownProp v k of Some x \<Rightarrow> Inr x | None \<Rightarrow> viaHost h r k))"

definition getProp :: "host \<Rightarrow> json \<Rightarrow> string \<Rightarrow> error + json" where
  "getProp h v k = (if v = JUndef \<or> v = JNull then Inr JUndef else getMember h v k)"

section \<open>The reference resolver\<close>

text \<open>
  \<^verbatim>\<open>ref.replace('#/', '')\<close> removes the first occurrence of the two
  characters, wherever it stands; \<^verbatim>\<open>.split('/')\<close> cuts at every slash and
  returns one part more than there are slashes.
\<close>

fun replaceFirst :: "string \<Rightarrow> string" where
  "replaceFirst (c # d # cs) =
     (if c = CHR ''#'' \<and> d = CHR ''/'' then cs else c # replaceFirst (d # cs))"
| "replaceFirst cs = cs"

fun split :: "char \<Rightarrow> string \<Rightarrow> string list" where
  "split sep [] = [[]]"
| "split sep (c # cs) =
     (if c = sep then [] # split sep cs
      else case split sep cs of
             p # ps \<Rightarrow> (c # p) # ps
           | [] \<Rightarrow> [[c]])"

definition refParts :: "string \<Rightarrow> string list" where
  "refParts ref = split (CHR ''/'') (replaceFirst ref)"

text \<open>The loop \<^verbatim>\<open>for (const part of parts) resolved = resolved?.[part]\<close>,
  started at the document; a read that raises ends the loop.\<close>

fun walk :: "host \<Rightarrow> json \<Rightarrow> string list \<Rightarrow> error + json" where
  "walk h resolved [] = Inr resolved"
| "walk h resolved (part # parts) =
     (case getProp h resolved part of
        Inl e \<Rightarrow> Inl e
      | Inr v \<Rightarrow> walk h v parts)"

definition lookupRef :: "host \<Rightarrow> json \<Rightarrow> string \<Rightarrow> error + json" where
  "lookupRef h spec ref = walk h spec (refParts ref)"

text \<open>The test \<^verbatim>\<open>'$ref' in record && typeof record.$ref === 'string'\<close>,
  returning the reference string when it holds. The record is a plain object, and no
  built-in prototype has a member \<^verbatim>\<open>$ref\<close>, so the test is one on the own
  properties.\<close>

definition refOf :: "(string \<times> json) list \<Rightarrow> string option" where
  "refOf record = (case map_of record ''$ref'' of Some (JStr ref) \<Rightarrow> Some ref | _ \<Rightarrow> None)"

text \<open>
  The assignment \<^verbatim>\<open>result[key] = ...\<close> to the object that the literal
  \<^verbatim>\<open>{}\<close> created. For the key \<^verbatim>\<open>__proto__\<close> it runs the setter
  that every plain object inherits: an object, an array, a function or
  \<^verbatim>\<open>null\<close> becomes the prototype of the result, any other value is ignored,
  and in no case is an own property created, so the key is absent from the entries of
  the result and from what \<^verbatim>\<open>JSON.stringify\<close> writes. For any other key the
  assignment creates the next own property, unless the prototype has been replaced and
  the new prototype chain holds a member of that name which forbids it. The chain of
  the object prototype, of an array or of \<^verbatim>\<open>null\<close> holds none, and a member of
  a plain object never does; so what matters of a value that may become a prototype is
  \<open>below\<close>: nothing, or the keys owned by the plain objects on its chain together
  with the built-in function that the chain reaches behind them.
  \<open>putOutcomeOf h p key\<close> is the outcome of the assignment of \<open>key\<close> to a
  result whose prototype is described by \<open>p\<close>, \<open>setPrototype y q p\<close> is the
  description after \<^verbatim>\<open>result.__proto__ = y\<close> for a value \<open>y\<close> described
  by \<open>q\<close>, and \<open>belowObject result p\<close> describes the finished result itself.
\<close>

type_synonym below = "(string set \<times> string) option"

definition putOutcomeOf :: "host \<Rightarrow> below \<Rightarrow> string \<Rightarrow> putOutcome" where
  "putOutcomeOf h p key =
     (case p of
        None \<Rightarrow> Stored
      | Some (own, f) \<Rightarrow> if key \<in> own then Stored else hostPut h f key)"

fun setPrototype :: "json \<Rightarrow> below \<Rightarrow> below \<Rightarrow> below" where
  "setPrototype (JObj kvs) q p = q"
| "setPrototype (JArr xs) q p = None"
| "setPrototype (JBuiltin kind name) q p = q"
| "setPrototype JNull q p = None"
| "setPrototype v q p = p"

definition belowObject :: "(string \<times> json) list \<Rightarrow> below \<Rightarrow> below" where
  "belowObject result p =
     (case p of None \<Rightarrow> None | Some (own, f) \<Rightarrow> Some (fst ` set result \<union> own, f))"

text \<open>
  \<open>resolveRefs h obj spec seen\<close> returns the value of the call together with the
  set \<open>seen\<close> as the call leaves it and the description of the value as a
  prototype, or the exception that the call raises: the
  source mutates one \<^verbatim>\<open>Set\<close> that every recursive call shares, so the set is
  threaded through the elements of an array (\<open>resolveList\<close>, the callback of
  \<^verbatim>\<open>obj.map\<close>) and through the entries of an object (\<open>resolveEntries\<close>,
  the loop over \<^verbatim>\<open>Object.entries(record)\<close>) from left to right. A built-in
  function is returned as it is (its \<^verbatim>\<open>typeof\<close> is not \<^verbatim>\<open>object\<close>);
  a built-in array or object is rebuilt from its entries, of which there are none. The
  placeholder for a reference string that is already in the set is the object literal
  \<^verbatim>\<open>{ $circular: ref }\<close>.
\<close>

function resolveRefs ::
    "host \<Rightarrow> json \<Rightarrow> json \<Rightarrow> string set \<Rightarrow> error + json \<times> string set \<times> below"
  and resolveList ::
    "host \<Rightarrow> json list \<Rightarrow> json \<Rightarrow> string set \<Rightarrow> error + json list \<times> string set"
  and resolveEntries ::
    "host \<Rightarrow> (string \<times> json) list \<Rightarrow> json \<Rightarrow> string set \<Rightarrow> below
       \<Rightarrow> error + (string \<times> json) list \<times> string set \<times> below"
where
  "resolveRefs h JUndef spec seen = Inr (JUndef, seen, None)"
| "resolveRefs h JNull spec seen = Inr (JNull, seen, None)"
| "resolveRefs h (JBool b) spec seen = Inr (JBool b, seen, None)"
| "resolveRefs h (JNum n) spec seen = Inr (JNum n, seen, None)"
| "resolveRefs h (JStr s) spec seen = Inr (JStr s, seen, None)"
| "resolveRefs h (JBuiltin kind name) spec seen =
     (case kind of
        BuiltinFunction \<Rightarrow> Inr (JBuiltin kind name, seen, Some ({}, name))
      | BuiltinArray \<Rightarrow> Inr (JArr [], seen, None)
      | BuiltinObject \<Rightarrow> Inr (JObj [], seen, None))"
| "resolveRefs h (JArr xs) spec seen =
     (case resolveList h xs spec seen of
        Inl e \<Rightarrow> Inl e
      | Inr (ys, seen') \<Rightarrow> Inr (JArr ys, seen', None))"
| "resolveRefs h (JObj record) spec seen =
     (case refOf record of
        Some ref \<Rightarrow>
          if ref \<in> seen then Inr (JObj [(''$circular'', JStr ref)], seen, None)
          else (case lookupRef h spec ref of
                  Inl e \<Rightarrow> Inl e
                | Inr resolved \<Rightarrow> resolveRefs h resolved spec (insert ref seen))
      | None \<Rightarrow>
          (case resolveEntries h record spec seen None of
             Inl e \<Rightarrow> Inl e
           | Inr (result, seen', p) \<Rightarrow> Inr (JObj result, seen', belowObject result p)))"
| "resolveList h [] spec seen = Inr ([], seen)"
| "resolveList h (x # xs) spec seen =
     (case resolveRefs h x spec seen of
        Inl e \<Rightarrow> Inl e
      | Inr (y, seen', q) \<Rightarrow>
          (case resolveList h xs spec seen' of
             Inl e \<Rightarrow> Inl e
           | Inr (ys, seen'') \<Rightarrow> Inr (y # ys, seen'')))"
| "resolveEntries h [] spec seen p = Inr ([], seen, p)"
| "resolveEntries h ((key, v) # kvs) spec seen p =
     (case resolveRefs h v spec seen of
        Inl e \<Rightarrow> Inl e
      | Inr (y, seen', q) \<Rightarrow>
          if key = ''__proto__'' then resolveEntries h kvs spec seen' (setPrototype y q p)
          else (case putOutcomeOf h p key of
                  Raised \<Rightarrow> Inl TypeError
                | Ignored \<Rightarrow> resolveEntries h kvs spec seen' p
                | Stored \<Rightarrow>
                    (case resolveEntries h kvs spec seen' p of
                       Inl e \<Rightarrow> Inl e
                     | Inr (later, seen'', p') \<Rightarrow> Inr ((key, y) # later, seen'', p'))))"
  by pat_completeness auto

subsection \<open>The termination measure\<close>

text \<open>
  Every reference string that a call can meet stands in the document or in the value
  being resolved: a lookup returns a part of the document, or a character, a length or
  something of the host, which hold no marker. Each expansion of a marker adds one of
  these strings to \<open>seen\<close>, so the number of strings not yet seen drops; between
  two expansions the value gets smaller.
\<close>

fun refsOf :: "json \<Rightarrow> string set"
  and refsList :: "json list \<Rightarrow> string set"
  and refsEntries :: "(string \<times> json) list \<Rightarrow> string set"
where
  "refsOf (JArr xs) = refsList xs"
| "refsOf (JObj record) =
     (case refOf record of Some ref \<Rightarrow> {ref} | None \<Rightarrow> {}) \<union> refsEntries record"
| "refsOf v = {}"
| "refsList [] = {}"
| "refsList (x # xs) = refsOf x \<union> refsList xs"
| "refsEntries [] = {}"
| "refsEntries ((k, v) # kvs) = refsOf v \<union> refsEntries kvs"

definition pending :: "json \<Rightarrow> string set \<Rightarrow> string set \<Rightarrow> nat" where
  "pending spec rs seen = card ((refsOf spec \<union> rs) - seen)"

text \<open>The default argument \<^verbatim>\<open>seen = new Set<string>()\<close>: a call with two
  arguments starts from the empty set and returns the value alone.\<close>

definition resolve :: "host \<Rightarrow> json \<Rightarrow> json \<Rightarrow> error + json" where
  "resolve h obj spec =
     (case resolveRefs h obj spec {} of Inl e \<Rightarrow> Inl e | Inr (v, seen, p) \<Rightarrow> Inr v)"

section \<open>The spec projector\<close>

subsection \<open>Product derivation\<close>

text \<open>
  \<open>extractProduct\<close> matches the path against
  \<^verbatim>\<open>/\/accounts\/\{[^}]+\}\/([^/]+)/\<close> and then against the same pattern with
  \<^verbatim>\<open>zones\<close>. \<open>matchAt lit s\<close> is an attempt at the start of \<open>s\<close>: the
  literal and an opening brace, the longest run of characters other than a closing
  brace (at least one; the character after the run has to be the closing brace, so a
  shorter run never matches), a closing brace and a slash, and the longest run of
  characters other than a slash (at least one), which is the captured group.
  \<open>matchFirst\<close> is \<^verbatim>\<open>String.prototype.match\<close> for a pattern without the
  global flag: the attempts run over the start positions from left to right, and the
  first success gives the group.
\<close>

fun stripPrefix :: "string \<Rightarrow> string \<Rightarrow> string option" where
  "stripPrefix [] s = Some s"
| "stripPrefix (p # ps) [] = None"
| "stripPrefix (p # ps) (c # cs) = (if p = c then stripPrefix ps cs else None)"

definition captureSegment :: "string \<Rightarrow> string option" where
  "captureSegment r =
     (if takeWhile (\<lambda>c. c \<noteq> CHR ''/'') r = [] then None
      else Some (takeWhile (\<lambda>c. c \<noteq> CHR ''/'') r))"

definition matchAt :: "string \<Rightarrow> string \<Rightarrow> string option" where
  "matchAt lit s =
     (case stripPrefix (lit @ ''{'') s of
        None \<Rightarrow> None
      | Some r \<Rightarrow>
          (if takeWhile (\<lambda>c. c \<noteq> CHR ''}'') r = [] then None
           else (case stripPrefix ''}/'' (dropWhile (\<lambda>c. c \<noteq> CHR ''}'') r) of
                   None \<Rightarrow> None
                 | Some r' \<Rightarrow> captureSegment r')))"

fun matchFirst :: "string \<Rightarrow> string \<Rightarrow> string option" where
  "matchFirst lit [] = matchAt lit []"
| "matchFirst lit (c # cs) =
     (case matchAt lit (c # cs) of Some seg \<Rightarrow> Some seg | None \<Rightarrow> matchFirst lit cs)"

definition extractProduct :: "string \<Rightarrow> string option" where
  "extractProduct path =
     (case matchFirst ''/accounts/'' path of
        Some seg \<Rightarrow> Some seg
      | None \<Rightarrow>
          (case matchFirst ''/zones/'' path of
             Some seg \<Rightarrow> Some seg
           | None \<Rightarrow> None))"

subsection \<open>The reduced document\<close>

definition HTTP_METHODS :: "string list" where
  "HTTP_METHODS = [''get'', ''post'', ''put'', ''patch'', ''delete'']"

text \<open>Sequencing of steps that can raise: the first exception ends the computation.\<close>

definition andThen :: "error + 'a \<Rightarrow> ('a \<Rightarrow> error + 'b) \<Rightarrow> error + 'b" where
  "andThen m f = (case m of Inl e \<Rightarrow> Inl e | Inr x \<Rightarrow> f x)"

text \<open>
  \<^verbatim>\<open>[...op.tags]\<close> for a truthy value: an array gives its elements, a string
  its characters, the array prototype nothing, and a value that is not iterable (a
  number, \<^verbatim>\<open>true\<close>, a plain object, a function) raises. \<^verbatim>\<open>t.toLowerCase()\<close> is the host's function
  on a string and raises on every other element, which has no such method.
  \<open>someMatches\<close> is \<^verbatim>\<open>tags.some(t => t.toLowerCase() === product.toLowerCase())\<close>,
  which stops at the first match.
\<close>

fun spread :: "json \<Rightarrow> error + json list" where
  "spread (JArr xs) = Inr xs"
| "spread (JStr s) = Inr (map (\<lambda>c. JStr [c]) s)"
| "spread (JBuiltin BuiltinArray name) = Inr []"
| "spread v = Inl TypeError"

fun toLowerCaseOf :: "host \<Rightarrow> json \<Rightarrow> error + string" where
  "toLowerCaseOf h (JStr s) = Inr (lowerCase h s)"
| "toLowerCaseOf h v = Inl TypeError"

fun someMatches :: "host \<Rightarrow> string \<Rightarrow> json list \<Rightarrow> error + bool" where
  "someMatches h product [] = Inr False"
| "someMatches h product (t # ts) =
     (case toLowerCaseOf h t of
        Inl e \<Rightarrow> Inl e
      | Inr l \<Rightarrow> if l = lowerCase h product then Inr True else someMatches h product ts)"

text \<open>
  The tags of an operation entry: \<^verbatim>\<open>op.tags ? [...op.tags] : []\<close>, with the
  product put in front by \<^verbatim>\<open>tags.unshift(product)\<close> when the condition
  \<^verbatim>\<open>product && !tags.some(...)\<close> holds.
\<close>

definition operationTags :: "host \<Rightarrow> string \<Rightarrow> json \<Rightarrow> error + json list" where
  "operationTags h path op =
     andThen (getMember h op ''tags'') (\<lambda>t.
     andThen (if truthy t then spread t else Inr []) (\<lambda>tags.
       case extractProduct path of
         None \<Rightarrow> Inr tags
       | Some product \<Rightarrow>
           if product = [] then Inr tags
           else andThen (someMatches h product tags) (\<lambda>found.
                  Inr (if found then tags else JStr product # tags))))"

text \<open>The object literal of an operation entry; its fields are evaluated in the order in
  which they are written, the three resolver calls with two arguments each.\<close>

definition operationEntry :: "host \<Rightarrow> string \<Rightarrow> json \<Rightarrow> json \<Rightarrow> error + json" where
  "operationEntry h path op spec =
     andThen (operationTags h path op) (\<lambda>tags.
     andThen (getMember h op ''summary'') (\<lambda>summary.
     andThen (getMember h op ''description'') (\<lambda>description.
     andThen (andThen (getMember h op ''parameters'') (\<lambda>v. resolve h v spec)) (\<lambda>parameters.
     andThen (andThen (getMember h op ''requestBody'') (\<lambda>v. resolve h v spec)) (\<lambda>requestBody.
     andThen (andThen (getMember h op ''responses'') (\<lambda>v. resolve h v spec)) (\<lambda>responses.
       Inr (JObj [(''summary'', summary),
                  (''description'', description),
                  (''tags'', JArr tags),
                  (''parameters'', parameters),
                  (''requestBody'', requestBody),
                  (''responses'', responses)])))))))"

text \<open>The loop over \<^verbatim>\<open>HTTP_METHODS\<close> for one path: the properties assigned to
  \<^verbatim>\<open>paths[path]\<close>, in the order of the assignments.\<close>

fun methodsLoop ::
  "host \<Rightarrow> string list \<Rightarrow> string \<Rightarrow> json \<Rightarrow> json \<Rightarrow> error + (string \<times> json) list"
where
  "methodsLoop h [] path pathItem spec = Inr []"
| "methodsLoop h (method # methods) path pathItem spec =
     (case getMember h pathItem method of
        Inl e \<Rightarrow> Inl e
      | Inr op \<Rightarrow>
          if truthy op
          then (case operationEntry h path op spec of
                  Inl e \<Rightarrow> Inl e
                | Inr entry \<Rightarrow>
                    (case methodsLoop h methods path pathItem spec of
                       Inl e \<Rightarrow> Inl e
                     | Inr later \<Rightarrow> Inr ((method, entry) # later)))
          else methodsLoop h methods path pathItem spec)"

text \<open>
  The assignment \<^verbatim>\<open>paths[path] = {}\<close>: for the path \<^verbatim>\<open>__proto__\<close> it
  runs the inherited setter, which makes the new object the prototype of
  \<^verbatim>\<open>paths\<close> and creates no own property; the records of the operations of this
  path go to that object, which the result does not hold. Every other path becomes the
  next own property (the prototype, if replaced, is a plain object). \<open>assign key v
  later\<close> puts the property in front of those that the later assignments create.
\<close>

definition assign :: "string \<Rightarrow> json \<Rightarrow> (string \<times> json) list \<Rightarrow> (string \<times> json) list" where
  "assign key v later = (if key = ''__proto__'' then later else (key, v) # later)"

text \<open>The loop over the entries of \<^verbatim>\<open>spec.paths\<close>; a falsy path item is
  skipped by \<^verbatim>\<open>continue\<close>.\<close>

fun pathsLoop :: "host \<Rightarrow> (string \<times> json) list \<Rightarrow> json \<Rightarrow> error + (string \<times> json) list" where
  "pathsLoop h [] spec = Inr []"
| "pathsLoop h ((path, pathItem) # rest) spec =
     (if \<not> truthy pathItem then pathsLoop h rest spec
      else (case methodsLoop h HTTP_METHODS path pathItem spec of
              Inl e \<Rightarrow> Inl e
            | Inr record \<Rightarrow>
                (case pathsLoop h rest spec of
                   Inl e \<Rightarrow> Inl e
                 | Inr later \<Rightarrow> Inr (assign path (JObj record) later))))"

text \<open>
  \<^verbatim>\<open>Object.entries\<close>: the own enumerable properties of an object, the index
  entries of an array or of a string (the keys are the decimal numerals of the indices),
  nothing for a number, a boolean or a built-in object, and a \<^verbatim>\<open>TypeError\<close> for
  \<^verbatim>\<open>undefined\<close> and \<^verbatim>\<open>null\<close>. \<^verbatim>\<open>Object.keys\<close> gives the keys
  of these entries.
\<close>

fun showNat :: "nat \<Rightarrow> string" where
  "showNat n =
     (if n < 10 then [char_of (48 + n)] else showNat (n div 10) @ [char_of (48 + n mod 10)])"

declare showNat.simps [simp del]

fun indexed :: "nat \<Rightarrow> json list \<Rightarrow> (string \<times> json) list" where
  "indexed i [] = []"
| "indexed i (x # xs) = (showNat i, x) # indexed (Suc i) xs"

fun objectEntries :: "json \<Rightarrow> error + (string \<times> json) list" where
  "objectEntries JUndef = Inl TypeError"
| "objectEntries JNull = Inl TypeError"
| "objectEntries (JObj kvs) = Inr kvs"
| "objectEntries (JArr xs) = Inr (indexed 0 xs)"
| "objectEntries (JStr s) = Inr (indexed 0 (map (\<lambda>c. JStr [c]) s))"
| "objectEntries v = Inr []"

definition objectKeys :: "json \<Rightarrow> error + string list" where
  "objectKeys v = andThen (objectEntries v) (\<lambda>entries. Inr (map fst entries))"

text \<open>\<open>generateSpecFile\<close> is the value that the source hands to
  \<^verbatim>\<open>JSON.stringify\<close>; the serialisation itself is the host's.\<close>

definition generateSpecFile :: "host \<Rightarrow> json \<Rightarrow> error + json" where
  "generateSpecFile h spec =
     andThen (getMember h spec ''paths'') (\<lambda>paths.
     andThen (objectEntries (if truthy paths then paths else JObj [])) (\<lambda>entries.
     andThen (pathsLoop h entries spec) (\<lambda>reduced.
       Inr (JObj [(''paths'', JObj reduced)]))))"

subsection \<open>The product list\<close>

text \<open>
  A \<^verbatim>\<open>Map\<close> keeps its keys in the order of their first insertion:
  \<open>mapSet\<close> overwrites the value of a key in place and appends a new key at the end.
\<close>

fun mapSet :: "(string \<times> nat) list \<Rightarrow> string \<Rightarrow> nat \<Rightarrow> (string \<times> nat) list" where
  "mapSet [] k v = [(k, v)]"
| "mapSet ((k', v') # m) k v = (if k' = k then (k, v) # m else (k', v') # mapSet m k v)"

text \<open>\<^verbatim>\<open>products.get(product) || 0\<close>: a missing key and a zero both give zero.\<close>

definition mapGetOr0 :: "(string \<times> nat) list \<Rightarrow> string \<Rightarrow> nat" where
  "mapGetOr0 m k = (case map_of m k of Some v \<Rightarrow> (if v \<noteq> 0 then v else 0) | None \<Rightarrow> 0)"

fun countProducts :: "string list \<Rightarrow> (string \<times> nat) list \<Rightarrow> (string \<times> nat) list" where
  "countProducts [] products = products"
| "countProducts (path # rest) products =
     (case extractProduct path of
        Some product \<Rightarrow>
          if product \<noteq> []
          then countProducts rest (mapSet products product (mapGetOr0 products product + 1))
          else countProducts rest products
      | None \<Rightarrow> countProducts rest products)"

text \<open>
  \<^verbatim>\<open>Array.prototype.sort\<close> with a comparison function: the language requires
  the sort to be stable, so for a consistent comparison function its result is the one
  of a stable insertion sort, where \<open>x\<close> stays before \<open>y\<close> unless the comparison
  is positive. The comparison function of the source is \<^verbatim>\<open>(a, b) => b[1] - a[1]\<close>.
\<close>

definition byCountDesc :: "string \<times> nat \<Rightarrow> string \<times> nat \<Rightarrow> int" where
  "byCountDesc a b = int (snd b) - int (snd a)"

fun insertBy :: "('a \<Rightarrow> 'a \<Rightarrow> int) \<Rightarrow> 'a \<Rightarrow> 'a list \<Rightarrow> 'a list" where
  "insertBy cmp x [] = [x]"
| "insertBy cmp x (y # ys) = (if cmp x y \<le> 0 then x # y # ys else y # insertBy cmp x ys)"

definition sortBy :: "('a \<Rightarrow> 'a \<Rightarrow> int) \<Rightarrow> 'a list \<Rightarrow> 'a list" where
  "sortBy cmp xs = foldr (insertBy cmp) xs []"

definition sortedProducts :: "string list \<Rightarrow> (string \<times> nat) list" where
  "sortedProducts pathKeys = sortBy byCountDesc (countProducts pathKeys [])"

definition productList :: "string list \<Rightarrow> string list" where
  "productList pathKeys = map fst (sortedProducts pathKeys)"

text \<open>\<^verbatim>\<open>Object.keys(spec.paths).sort()\<close>: the default order of strings is the
  lexicographic order of their characters. The call raises when \<^verbatim>\<open>spec.paths\<close>
  is \<^verbatim>\<open>undefined\<close> or \<^verbatim>\<open>null\<close>, and then the script writes no product
  list.\<close>

definition pathKeys :: "host \<Rightarrow> json \<Rightarrow> error + string list" where
  "pathKeys h spec =
     andThen (getMember h spec ''paths'') (\<lambda>paths.
     andThen (objectKeys paths) (\<lambda>keys. Inr (sort keys)))"

definition PRODUCTS :: "host \<Rightarrow> json \<Rightarrow> error + string list" where
  "PRODUCTS h spec = andThen (pathKeys h spec) (\<lambda>keys. Inr (productList keys))"

section \<open>Notions used by the properties\<close>


text \<open>
  \<open>occursAt lit pre path seg\<close>: behind the prefix \<open>pre\<close>, the path goes on with
  the literal, a placeholder in braces (at least one character, none of them a closing
  brace), a slash and the segment \<open>seg\<close>, which is not empty, holds no slash and ends
  at the next slash or at the end of the path.
\<close>

definition occursAt :: "string \<Rightarrow> string \<Rightarrow> string \<Rightarrow> string \<Rightarrow> bool" where
  "occursAt lit pre path seg \<longleftrightarrow>
     (\<exists>inner rest.
        path = pre @ lit @ ''{'' @ inner @ ''}/'' @ seg @ rest \<and>
        inner \<noteq> [] \<and> CHR ''}'' \<notin> set inner \<and>
        seg \<noteq> [] \<and> CHR ''/'' \<notin> set seg \<and>
        (rest = [] \<or> hd rest = CHR ''/''))"

text \<open>
  \<open>countOf keys p\<close> is the number of path keys that derive the product \<open>p\<close>;
  \<open>encounterOrder keys\<close> lists the derived products once each, in the order in which
  the iteration over \<open>keys\<close> meets them first.
\<close>

definition countOf :: "string list \<Rightarrow> string \<Rightarrow> nat" where
  "countOf keys p = length (filter (\<lambda>k. extractProduct k = Some p) keys)"

fun encounterOrder :: "string list \<Rightarrow> string list" where
  "encounterOrder [] = []"
| "encounterOrder (k # keys) =
     (case extractProduct k of
        Some p \<Rightarrow> p # filter (\<lambda>q. q \<noteq> p) (encounterOrder keys)
      | None \<Rightarrow> encounterOrder keys)"

subsection \<open>A sample host and sample documents\<close>

text \<open>
  \<open>sampleHost\<close> has the members of the built-in prototypes that the examples read,
  as ECMAScript defines them, and no other: \<^verbatim>\<open>constructor\<close> of a plain object
  is the function \<^verbatim>\<open>Object\<close>, its \<^verbatim>\<open>__proto__\<close> is the object
  prototype, whose own \<^verbatim>\<open>__proto__\<close> is \<^verbatim>\<open>null\<close>; a function has a
  \<^verbatim>\<open>name\<close>, and reading its \<^verbatim>\<open>caller\<close> or \<^verbatim>\<open>arguments\<close>
  raises, as does an assignment that meets its \<^verbatim>\<open>name\<close>,
  \<^verbatim>\<open>length\<close>, \<^verbatim>\<open>prototype\<close>, \<^verbatim>\<open>caller\<close> or
  \<^verbatim>\<open>arguments\<close>. Its \<^verbatim>\<open>toLowerCase\<close> maps the capital letters
  among the 256 characters of the model (\<^verbatim>\<open>A\<close> to \<^verbatim>\<open>Z\<close>, and the accented capitals
  \<^verbatim>\<open>0xC0\<close> to \<^verbatim>\<open>0xDE\<close> but the multiplication sign \<^verbatim>\<open>0xD7\<close>)
  to their small letters.
\<close>

definition toLowerChar :: "char \<Rightarrow> char" where
  "toLowerChar c =
     (let n = (of_char c :: nat)
      in if (65 \<le> n \<and> n \<le> 90) \<or> (192 \<le> n \<and> n \<le> 222 \<and> n \<noteq> 215)
         then char_of (n + 32) else c)"

fun sampleGet :: "receiver \<Rightarrow> string \<Rightarrow> error + hostValue" where
  "sampleGet OfObject k =
     (if k = ''constructor'' then Inr (HBuiltin BuiltinFunction ''Object'')
      else if k = ''__proto__'' then Inr (HBuiltin BuiltinObject ''Object.prototype'')
      else Inr HUndefined)"
| "sampleGet (OfBuiltin BuiltinFunction name) k =
     (if k = ''caller'' \<or> k = ''arguments'' then Inl TypeError
      else if k = ''name'' then Inr (HString name)
      else Inr HUndefined)"
| "sampleGet (OfBuiltin BuiltinObject name) k =
     (if name = ''Object.prototype'' \<and> k = ''__proto__'' then Inr HNull else Inr HUndefined)"
| "sampleGet r k = Inr HUndefined"

definition samplePut :: "string \<Rightarrow> string \<Rightarrow> putOutcome" where
  "samplePut f key =
     (if key \<in> {''name'', ''length'', ''prototype'', ''caller'', ''arguments''} then Raised
      else Stored)"

definition sampleHost :: host where
  "sampleHost = \<lparr>hostGet = sampleGet, hostPut = samplePut, lowerCase = map toLowerChar\<rparr>"

definition cyclicDoc :: json where
  "cyclicDoc = JObj [(''a'', JObj [(''$ref'', JStr ''#/b'')]),
                     (''b'', JObj [(''$ref'', JStr ''#/a'')])]"

definition chainDoc :: json where
  "chainDoc = JObj [(''components'', JObj [(''schemas'', JObj
       [(''A'', JObj [(''$ref'', JStr ''#/components/schemas/B'')]),
        (''B'', JObj [(''$ref'', JStr ''#/components/schemas/C'')]),
        (''C'', JStr ''leaf'')])])]"


definition optionsDoc :: json where
  "optionsDoc =
     JObj [(''paths'', JObj
       [(''/user/tokens'', JObj [(''options'', JObj [(''summary'', JStr ''o'')]),
                                 (''get'', JObj [(''summary'', JStr ''g'')]),
                                 (''post'', JNull)]),
        (''/user/none'', JNull)])]"

definition productsDoc :: json where
  "productsDoc = JObj [(''paths'', JObj
     [(''/zones/{zone_id}/b/5'', JNull),
      (''/accounts/{account_id}/c'', JNull),
      (''/accounts/{account_id}/b/1'', JNull),
      (''/accounts/{account_id}/a/2'', JNull),
      (''/user/tokens'', JNull),
      (''/accounts/{account_id}/b/3'', JNull),
      (''/accounts/{account_id}/a/1'', JNull),
      (''/accounts/{account_id}/b/2'', JNull),
      (''/zones/{zone_id}/d'', JNull),
      (''/accounts/{account_id}/a/3'', JNull),
      (''/accounts/{account_id}/b/4'', JNull)])]"

definition productsKeys :: "string list" where
  "productsKeys =
     [''/accounts/{account_id}/a/1'', ''/accounts/{account_id}/a/2'',
      ''/accounts/{account_id}/a/3'', ''/accounts/{account_id}/b/1'',
      ''/accounts/{account_id}/b/2'', ''/accounts/{account_id}/b/3'',
      ''/accounts/{account_id}/b/4'', ''/accounts/{account_id}/c'',
      ''/user/tokens'', ''/zones/{zone_id}/b/5'', ''/zones/{zone_id}/d'']"

section \<open>Properties of the reference resolver\<close>

subsection \<open>Termination\<close>

lemma finite_refs:
  "finite (refsOf v)" "finite (refsList xs)" "finite (refsEntries kvs)"
  by (induction v and xs and kvs rule: refsOf_refsList_refsEntries.induct)
     (auto split: option.splits)

lemma refsList_nth: "i < length xs \<Longrightarrow> refsOf (xs ! i) \<subseteq> refsList xs"
  by (induction xs arbitrary: i) (auto simp: nth_Cons split: nat.splits)

lemma refsEntries_map_of: "map_of kvs k = Some v \<Longrightarrow> refsOf v \<subseteq> refsEntries kvs"
  by (induction kvs) (auto split: if_splits)

lemma refsOf_ownProp: "ownProp v k = Some x \<Longrightarrow> refsOf x \<subseteq> refsOf v"
proof (cases v)
  case (JArr xs)
  assume "ownProp v k = Some x"
  then show ?thesis
    using JArr refsList_nth [of _ xs] by (auto split: option.splits if_splits)
next
  case (JObj kvs)
  assume "ownProp v k = Some x"
  then show ?thesis
    using JObj refsEntries_map_of [of kvs k x] by auto
qed (auto split: option.splits if_splits)

lemma refsOf_fromHost: "refsOf (fromHost v) = {}"
  by (cases v) simp_all

lemma refsOf_getProp: "getProp h v k = Inr x \<Longrightarrow> refsOf x \<subseteq> refsOf v"
proof -
  assume g: "getProp h v k = Inr x"
  show ?thesis
  proof (cases "ownProp v k")
    case (Some y)
    then have "x = y \<or> x = JUndef"
      using g by (auto simp: getProp_def getMember_def split: if_splits option.splits)
    then show ?thesis using refsOf_ownProp [OF Some] by auto
  next
    case None
    then have "x = JUndef \<or> (\<exists>w. x = fromHost w)"
      using g
      by (auto simp: getProp_def getMember_def viaHost_def split: if_splits option.splits sum.splits)
    then show ?thesis by (auto simp: refsOf_fromHost)
  qed
qed

lemma refsOf_walk: "walk h v parts = Inr x \<Longrightarrow> refsOf x \<subseteq> refsOf v"
proof (induction parts arbitrary: v)
  case Nil
  then show ?case by simp
next
  case (Cons part parts)
  from Cons.prems obtain w where w: "getProp h v part = Inr w" and r: "walk h w parts = Inr x"
    by (auto split: sum.splits)
  have "refsOf x \<subseteq> refsOf w" using r by (rule Cons.IH)
  also have "\<dots> \<subseteq> refsOf v" using w by (rule refsOf_getProp)
  finally show ?case .
qed

lemma refsOf_lookupRef: "lookupRef h spec ref = Inr x \<Longrightarrow> refsOf x \<subseteq> refsOf spec"
  unfolding lookupRef_def by (rule refsOf_walk)

lemma seen_mono_dom:
  "resolveRefs_resolveList_resolveEntries_dom (Inl (h, obj, spec, seen)) \<Longrightarrow>
     resolveRefs h obj spec seen = Inr (v, seen', q) \<Longrightarrow> seen \<subseteq> seen'"
  "resolveRefs_resolveList_resolveEntries_dom (Inr (Inl (h, xs, spec, seen))) \<Longrightarrow>
     resolveList h xs spec seen = Inr (vs, seen') \<Longrightarrow> seen \<subseteq> seen'"
  "resolveRefs_resolveList_resolveEntries_dom (Inr (Inr (h, kvs, spec, seen, p))) \<Longrightarrow>
     resolveEntries h kvs spec seen p = Inr (es, seen', p') \<Longrightarrow> seen \<subseteq> seen'"
proof (induction arbitrary: v seen' q and vs seen' and es seen' p'
    rule: resolveRefs_resolveList_resolveEntries.pinduct)
  case (1 h spec seen)
  then show ?case by (simp add: resolveRefs.psimps(1))
next
  case (2 h spec seen)
  then show ?case by (simp add: resolveRefs.psimps(2))
next
  case (3 h b spec seen)
  then show ?case by (simp add: resolveRefs.psimps(3))
next
  case (4 h n spec seen)
  then show ?case by (simp add: resolveRefs.psimps(4))
next
  case (5 h s spec seen)
  then show ?case by (simp add: resolveRefs.psimps(5))
next
  case (6 h kind name spec seen)
  then show ?case by (cases kind) (simp_all add: resolveRefs.psimps(6))
next
  case (7 h xs spec seen)
  from 7(3) obtain ys where "resolveList h xs spec seen = Inr (ys, seen')"
    by (simp add: resolveRefs.psimps(7) [OF 7(1)] split: sum.splits prod.splits)
  then show ?case by (rule 7(2))
next
  case (8 h kvs spec seen)
  show ?case
  proof (cases "refOf kvs")
    case None
    with 8(4) obtain es p where "resolveEntries h kvs spec seen None = Inr (es, seen', p)"
      by (simp add: resolveRefs.psimps(8) [OF 8(1)] split: sum.splits prod.splits)
    then show ?thesis by (rule 8(2) [OF None])
  next
    case (Some ref)
    show ?thesis
    proof (cases "ref \<in> seen")
      case True
      then show ?thesis
        using 8(4) Some by (simp add: resolveRefs.psimps(8) [OF 8(1)])
    next
      case False
      from 8(4) Some False obtain w where w: "lookupRef h spec ref = Inr w"
        and r: "resolveRefs h w spec (insert ref seen) = Inr (v, seen', q)"
        by (simp add: resolveRefs.psimps(8) [OF 8(1)] split: sum.splits)
      have "insert ref seen \<subseteq> seen'"
        using 8(3) [OF Some False w r] .
      then show ?thesis by blast
    qed
  qed
next
  case (9 h spec seen)
  then show ?case by (simp add: resolveList.psimps(1))
next
  case (10 h x xs spec seen)
  from 10(4) obtain y s1 q ys where a: "resolveRefs h x spec seen = Inr (y, s1, q)"
    and b: "resolveList h xs spec s1 = Inr (ys, seen')"
    by (simp add: resolveList.psimps(2) [OF 10(1)] split: sum.splits prod.splits)
  have "seen \<subseteq> s1" using 10(2) [OF a] .
  moreover have "s1 \<subseteq> seen'" using 10(3) [OF a refl refl b] .
  ultimately show ?case by blast
next
  case (11 h spec seen p)
  then show ?case by (simp add: resolveEntries.psimps(1))
next
  case (12 h key x kvs spec seen p)
  note e = 12(6) [unfolded resolveEntries.psimps(2) [OF 12(1)]]
  from e obtain y s1 q where a: "resolveRefs h x spec seen = Inr (y, s1, q)"
    by (cases "resolveRefs h x spec seen") auto
  have m: "seen \<subseteq> s1" using 12(2) [OF a] .
  show ?case
  proof (cases "key = ''__proto__''")
    case True
    with e a have "resolveEntries h kvs spec s1 (setPrototype y q p) = Inr (es, seen', p')"
      by simp
    from 12(3) [OF a refl refl True this] m show ?thesis by blast
  next
    case False
    show ?thesis
    proof (cases "putOutcomeOf h p key")
      case Stored
      with e a False obtain later where
        "resolveEntries h kvs spec s1 p = Inr (later, seen', p')"
        by (auto split: sum.splits)
      from 12(4) [OF a refl refl False Stored this] m show ?thesis by blast
    next
      case Ignored
      with e a False have "resolveEntries h kvs spec s1 p = Inr (es, seen', p')"
        by simp
      from 12(5) [OF a refl refl False Ignored this] m show ?thesis by blast
    next
      case Raised
      with e a False show ?thesis by simp
    qed
  qed
qed

lemma pending_mono:
  "finite rs' \<Longrightarrow> rs \<subseteq> rs' \<Longrightarrow> seen' \<subseteq> seen \<Longrightarrow>
     pending spec rs seen \<le> pending spec rs' seen'"
  unfolding pending_def by (intro card_mono) (auto simp: finite_refs)

lemma pending_less:
  assumes "finite rs'" "rs \<subseteq> refsOf spec" "ref \<in> rs'" "ref \<notin> seen"
  shows "pending spec rs (insert ref seen) < pending spec rs' seen"
  unfolding pending_def
proof (rule psubset_card_mono)
  show "finite ((refsOf spec \<union> rs') - seen)"
    using assms(1) by (simp add: finite_refs)
  show "(refsOf spec \<union> rs) - insert ref seen \<subset> (refsOf spec \<union> rs') - seen"
    using assms by auto
qed

lemma pending_step:
  assumes "resolveRefs_resolveList_resolveEntries_dom (Inl (h, x, spec, seen))"
    and "resolveRefs h x spec seen = Inr (y, s1, q)"
    and "finite rs'" and "rs \<subseteq> rs'"
  shows "pending spec rs s1 \<le> pending spec rs' seen"
proof -
  have "seen \<subseteq> s1" using assms(1, 2) by (rule seen_mono_dom(1))
  then show ?thesis using assms(3, 4) by (intro pending_mono)
qed

lemma resolveRefs_dom_total: "All resolveRefs_resolveList_resolveEntries_dom"
proof (relation "inv_image (less_than <*lex*> less_than)
    (\<lambda>a. case a of
        Inl (h, obj, spec, seen) \<Rightarrow> (pending spec (refsOf obj) seen, size obj)
      | Inr (Inl (h, xs, spec, seen)) \<Rightarrow> (pending spec (refsList xs) seen, size_list size xs)
      | Inr (Inr (h, kvs, spec, seen, p)) \<Rightarrow>
          (pending spec (refsEntries kvs) seen, size_list (size_prod (\<lambda>_. 0) size) kvs))",
    goal_cases)
  case 1
  show ?case by (intro wf_inv_image wf_lex_prod wf_less_than)
next
  case (2 h xs spec seen)
  show ?case by simp
next
  case (3 h kvs spec seen)
  have "pending spec (refsEntries kvs) seen \<le> pending spec (refsOf (JObj kvs)) seen"
    by (rule pending_mono [OF finite_refs(1)]) auto
  then show ?case by auto
next
  case (4 h kvs spec seen ref resolved)
  have "ref \<in> refsOf (JObj kvs)"
    using 4 by simp
  moreover have "refsOf resolved \<subseteq> refsOf spec"
    using 4 by (intro refsOf_lookupRef [of h spec ref])
  ultimately have "pending spec (refsOf resolved) (insert ref seen)
        < pending spec (refsOf (JObj kvs)) seen"
    using 4 by (intro pending_less finite_refs)
  then show ?case by simp
next
  case (5 h x xs spec seen)
  have "pending spec (refsOf x) seen \<le> pending spec (refsList (x # xs)) seen"
    by (rule pending_mono) (auto simp: finite_refs)
  then show ?case by auto
next
  case (6 h x xs spec seen b y r s1 q)
  have "resolveRefs h x spec seen = Inr (y, s1, q)"
    using 6 by simp
  then have "pending spec (refsList xs) s1 \<le> pending spec (refsList (x # xs)) seen"
    using 6 by (intro pending_step [of h x spec seen y s1 q]) (auto simp: finite_refs)
  then show ?case by auto
next
  case (7 h key v kvs spec seen p)
  have "pending spec (refsOf v) seen \<le> pending spec (refsEntries ((key, v) # kvs)) seen"
    by (rule pending_mono) (auto simp: finite_refs)
  then show ?case by auto
next
  case (8 h key v kvs spec seen p b y r s1 q)
  have "resolveRefs h v spec seen = Inr (y, s1, q)"
    using 8 by simp
  then have "pending spec (refsEntries kvs) s1 \<le> pending spec (refsEntries ((key, v) # kvs)) seen"
    using 8 by (intro pending_step [of h v spec seen y s1 q]) (auto simp: finite_refs)
  then show ?case by auto
next
  case (9 h key v kvs spec seen p b y r s1 q)
  have "resolveRefs h v spec seen = Inr (y, s1, q)"
    using 9 by simp
  then have "pending spec (refsEntries kvs) s1 \<le> pending spec (refsEntries ((key, v) # kvs)) seen"
    using 9 by (intro pending_step [of h v spec seen y s1 q]) (auto simp: finite_refs)
  then show ?case by auto
next
  case (10 h key v kvs spec seen p b y r s1 q)
  have "resolveRefs h v spec seen = Inr (y, s1, q)"
    using 10 by simp
  then have "pending spec (refsEntries kvs) s1 \<le> pending spec (refsEntries ((key, v) # kvs)) seen"
    using 10 by (intro pending_step [of h v spec seen y s1 q]) (auto simp: finite_refs)
  then show ?case by auto
qed

termination resolveRefs
  by (rule resolveRefs_dom_total)

lemma putOutcomeOf_default [simp]: "putOutcomeOf h None key = Stored"
  by (simp add: putOutcomeOf_def)

lemma belowObject_default [simp]: "belowObject result None = None"
  by (simp add: belowObject_def)

subsection \<open>The visited set\<close>

lemma seen_mono:
  "resolveRefs h obj spec seen = Inr (v, seen', q) \<Longrightarrow> seen \<subseteq> seen'"
  "resolveList h xs spec seen = Inr (vs, seen') \<Longrightarrow> seen \<subseteq> seen'"
  "resolveEntries h kvs spec seen p = Inr (es, seen', p') \<Longrightarrow> seen \<subseteq> seen'"
proof -
  have d: "resolveRefs_resolveList_resolveEntries_dom a" for a
    using resolveRefs_dom_total by blast
  show "resolveRefs h obj spec seen = Inr (v, seen', q) \<Longrightarrow> seen \<subseteq> seen'"
    by (rule seen_mono_dom(1) [OF d])
  show "resolveList h xs spec seen = Inr (vs, seen') \<Longrightarrow> seen \<subseteq> seen'"
    by (rule seen_mono_dom(2) [OF d])
  show "resolveEntries h kvs spec seen p = Inr (es, seen', p') \<Longrightarrow> seen \<subseteq> seen'"
    by (rule seen_mono_dom(3) [OF d])
qed








lemma andThen_Inr: "andThen m f = Inr y \<longleftrightarrow> (\<exists>x. m = Inr x \<and> f x = Inr y)"
  by (cases m) (simp_all add: andThen_def)


lemma operationEntry_fields:
  assumes "operationEntry h path op spec = Inr entry"
  shows "\<exists>tags summary description pv p bv b rv r.
           operationTags h path op = Inr tags \<and>
           getMember h op ''summary'' = Inr summary \<and>
           getMember h op ''description'' = Inr description \<and>
           getMember h op ''parameters'' = Inr pv \<and> resolve h pv spec = Inr p \<and>
           getMember h op ''requestBody'' = Inr bv \<and> resolve h bv spec = Inr b \<and>
           getMember h op ''responses'' = Inr rv \<and> resolve h rv spec = Inr r \<and>
           entry = JObj [(''summary'', summary), (''description'', description),
                         (''tags'', JArr tags), (''parameters'', p),
                         (''requestBody'', b), (''responses'', r)]"
  using assms unfolding operationEntry_def andThen_Inr by blast

lemma sampleHost_sel:
  "hostGet sampleHost = sampleGet" "hostPut sampleHost = samplePut"
  "lowerCase sampleHost = map toLowerChar"
  by (simp_all add: sampleHost_def)


text \<open>
  C1. The resolver terminates on every input: every call lies in the domain on which the
  recursion is well founded, whatever the host, the value, the document and the visited
  set are. A marker whose reference string is already visited returns the object whose
  only property is \<^verbatim>\<open>$circular\<close> with this string as its value, without a
  further call; in a document where \<open>a\<close> leads to a marker for \<open>b\<close> and
  \<open>b\<close> leads back to a marker for \<open>a\<close>, resolving a marker for \<open>a\<close>
  returns this object for \<open>a\<close>.
\<close>

theorem resolveRefs_terminates:
  "resolveRefs_resolveList_resolveEntries_dom (Inl (h, obj, spec, seen)) \<and>
   (refOf kvs = Some ref \<and> ref \<in> seen' \<longrightarrow>
      resolveRefs h (JObj kvs) spec seen' = Inr (JObj [(''$circular'', JStr ref)], seen', None)) \<and>
   (refOf ka = Some a \<and> lookupRef h spec a = Inr (JObj kb) \<and> refOf kb = Some b \<and> a \<noteq> b \<and>
    lookupRef h spec b = Inr (JObj ka') \<and> refOf ka' = Some a \<longrightarrow>
      resolve h (JObj ka) spec = Inr (JObj [(''$circular'', JStr a)]))"
proof (intro conjI impI)
  show "resolveRefs_resolveList_resolveEntries_dom (Inl (h, obj, spec, seen))"
    by (rule spec [OF resolveRefs_dom_total])
next
  assume "refOf kvs = Some ref \<and> ref \<in> seen'"
  then show "resolveRefs h (JObj kvs) spec seen' = Inr (JObj [(''$circular'', JStr ref)], seen', None)"
    by simp
next
  assume "refOf ka = Some a \<and> lookupRef h spec a = Inr (JObj kb) \<and> refOf kb = Some b \<and> a \<noteq> b \<and>
    lookupRef h spec b = Inr (JObj ka') \<and> refOf ka' = Some a"
  then show "resolve h (JObj ka) spec = Inr (JObj [(''$circular'', JStr a)])"
    by (simp add: resolve_def)
qed

theorem resolveRefs_terminates_witness:
  "resolveRefs_resolveList_resolveEntries_dom
     (Inl (sampleHost, JObj [(''$ref'', JStr ''#/a'')], cyclicDoc, {})) \<and>
   resolveRefs sampleHost (JObj [(''$ref'', JStr ''#/b''), (''x'', JNull)]) cyclicDoc {''#/b''}
     = Inr (JObj [(''$circular'', JStr ''#/b'')], {''#/b''}, None) \<and>
   resolve sampleHost (JObj [(''$ref'', JStr ''#/a'')]) cyclicDoc
     = Inr (JObj [(''$circular'', JStr ''#/a'')])"
  using resolveRefs_terminates [of sampleHost "JObj [(''$ref'', JStr ''#/a'')]" cyclicDoc "{}"
      "[(''$ref'', JStr ''#/b''), (''x'', JNull)]" "''#/b''" "{''#/b''}"
      "[(''$ref'', JStr ''#/a'')]" "''#/a''" "[(''$ref'', JStr ''#/b'')]" "''#/b''"
      "[(''$ref'', JStr ''#/a'')]"]
  by (simp add: refOf_def lookupRef_def refParts_def cyclicDoc_def getProp_def getMember_def)



subsection \<open>Keys that the result loses, and inherited members\<close>

text \<open>
  Once the prototype of a result is a built-in function, a later assignment can raise:
  with the sample host, \<^verbatim>\<open>name\<close> cannot be assigned below the function
  \<^verbatim>\<open>Object\<close>, unless a plain object in between owns the key.
\<close>

lemma assignment_below_function_prototype:
  "resolve sampleHost
     (JObj [(''__proto__'', JObj [(''$ref'', JStr ''#/constructor'')]), (''name'', JStr ''n'')])
     chainDoc = Inl TypeError"
  "resolve sampleHost
     (JObj [(''__proto__'', JObj [(''x'', JNum 1),
              (''__proto__'', JObj [(''$ref'', JStr ''#/constructor'')])]),
            (''x'', JStr ''n''), (''other'', JStr ''o'')])
     chainDoc = Inr (JObj [(''x'', JStr ''n''), (''other'', JStr ''o'')])"
  by (simp_all add: resolve_def refOf_def lookupRef_def refParts_def chainDoc_def getProp_def
        getMember_def viaHost_def sampleHost_sel putOutcomeOf_def belowObject_def samplePut_def)

text \<open>
  C3. An object that is no marker does not keep its key set: the value of a key
  \<^verbatim>\<open>__proto__\<close> is resolved and then assigned through the inherited setter, so
  the key is missing from the result, for every host and document.
\<close>

theorem resolveRefs_loses_proto_key:
  "resolve h (JObj [(''__proto__'', JObj [(''a'', JStr ''x'')]), (''b'', JStr ''y'')]) spec
     = Inr (JObj [(''b'', JStr ''y'')])"
  by (simp add: resolve_def refOf_def)

text \<open>
  C4. A value without any marker is not always returned as it is: an object that has a
  property named \<^verbatim>\<open>__proto__\<close> inside comes back without it, for every host and
  document.
\<close>

theorem resolveRefs_changes_marker_free_value:
  "refsOf (JObj [(''schema'', JObj [(''properties'',
       JObj [(''__proto__'', JObj [(''type'', JStr ''string'')])])])]) = {} \<and>
   resolve h (JObj [(''schema'', JObj [(''properties'',
       JObj [(''__proto__'', JObj [(''type'', JStr ''string'')])])])]) spec
     = Inr (JObj [(''schema'', JObj [(''properties'', JObj [])])])"
  by (simp add: resolve_def refOf_def)

text \<open>
  C5. The lookup reads inherited members as well. For the sample host and a document
  that has neither a key \<^verbatim>\<open>constructor\<close> nor a key \<^verbatim>\<open>__proto__\<close>, the
  reference string \<^verbatim>\<open>#/constructor/caller\<close> makes the lookup, and so the
  resolver, raise a \<^verbatim>\<open>TypeError\<close>;
  \<^verbatim>\<open>#/components/constructor/name\<close> resolves to the string \<^verbatim>\<open>Object\<close>
  and \<^verbatim>\<open>#/__proto__/__proto__\<close> to \<^verbatim>\<open>null\<close>.
\<close>

theorem lookup_reads_inherited_members:
  "lookupRef sampleHost chainDoc ''#/constructor/caller'' = Inl TypeError \<and>
   resolve sampleHost (JObj [(''$ref'', JStr ''#/constructor/caller'')]) chainDoc = Inl TypeError \<and>
   resolve sampleHost (JObj [(''$ref'', JStr ''#/components/constructor/name'')]) chainDoc
     = Inr (JStr ''Object'') \<and>
   resolve sampleHost (JObj [(''$ref'', JStr ''#/__proto__/__proto__'')]) chainDoc = Inr JNull"
  by (simp add: resolve_def refOf_def lookupRef_def refParts_def chainDoc_def getProp_def
        getMember_def viaHost_def sampleHost_sel)

text \<open>
  C10. An object whose \<^verbatim>\<open>$ref\<close> is not a string is no marker and is resolved
  entry by entry, but it does not keep all its keys: a key \<^verbatim>\<open>__proto__\<close> is
  missing from the result, for every host and document.
\<close>

theorem non_string_ref_loses_proto_key:
  "refOf [(''$ref'', JNum 7), (''__proto__'', JObj [(''a'', JStr ''x'')])] = None \<and>
   resolve h (JObj [(''$ref'', JNum 7), (''__proto__'', JObj [(''a'', JStr ''x'')])]) spec
     = Inr (JObj [(''$ref'', JNum 7)])"
  by (simp add: resolve_def refOf_def)

section \<open>Properties of the spec projector\<close>

lemma stripPrefix_Some: "stripPrefix p s = Some r \<longleftrightarrow> s = p @ r"
  by (induction p s rule: stripPrefix.induct) auto

lemma takeWhile_run:
  "(\<forall>c\<in>set xs. P c) \<Longrightarrow> rest = [] \<or> \<not> P (hd rest) \<Longrightarrow> takeWhile P (xs @ rest) = xs"
  by (cases rest) (auto simp: takeWhile_tail)

lemma dropWhile_run:
  "(\<forall>c\<in>set xs. P c) \<Longrightarrow> rest = [] \<or> \<not> P (hd rest) \<Longrightarrow> dropWhile P (xs @ rest) = rest"
  by (cases rest) (auto simp: dropWhile_append3)

lemma captureSegment_Some:
  "captureSegment r = Some seg \<longleftrightarrow>
     (\<exists>rest. r = seg @ rest \<and> seg \<noteq> [] \<and> CHR ''/'' \<notin> set seg \<and> (rest = [] \<or> hd rest = CHR ''/''))"
proof
  assume h: "captureSegment r = Some seg"
  then have seg: "seg = takeWhile (\<lambda>c. c \<noteq> CHR ''/'') r" "seg \<noteq> []"
    by (auto simp: captureSegment_def split: if_splits)
  have a: "r = seg @ dropWhile (\<lambda>c. c \<noteq> CHR ''/'') r"
    using seg by simp
  have b: "CHR ''/'' \<notin> set seg"
    using seg(1) by (auto dest: set_takeWhileD)
  have c: "dropWhile (\<lambda>c. c \<noteq> CHR ''/'') r = [] \<or> hd (dropWhile (\<lambda>c. c \<noteq> CHR ''/'') r) = CHR ''/''"
    using hd_dropWhile [of "\<lambda>c. c \<noteq> CHR ''/''" r] by auto
  show "\<exists>rest. r = seg @ rest \<and> seg \<noteq> [] \<and> CHR ''/'' \<notin> set seg \<and> (rest = [] \<or> hd rest = CHR ''/'')"
    using a b c seg(2) by blast
next
  assume "\<exists>rest. r = seg @ rest \<and> seg \<noteq> [] \<and> CHR ''/'' \<notin> set seg \<and> (rest = [] \<or> hd rest = CHR ''/'')"
  then obtain rest where r: "r = seg @ rest" "seg \<noteq> []" "CHR ''/'' \<notin> set seg"
      "rest = [] \<or> hd rest = CHR ''/''"
    by blast
  have "takeWhile (\<lambda>c. c \<noteq> CHR ''/'') (seg @ rest) = seg"
    using r(3,4) by (intro takeWhile_run) auto
  then show "captureSegment r = Some seg"
    using r(1,2) by (simp add: captureSegment_def)
qed

lemma matchAt_Some: "matchAt lit s = Some seg \<longleftrightarrow> occursAt lit [] s seg"
proof
  assume h: "matchAt lit s = Some seg"
  then obtain r where r: "stripPrefix (lit @ ''{'') s = Some r"
    by (auto simp: matchAt_def split: option.splits)
  let ?inner = "takeWhile (\<lambda>c. c \<noteq> CHR ''}'') r"
  let ?after = "dropWhile (\<lambda>c. c \<noteq> CHR ''}'') r"
  from h r have inner: "?inner \<noteq> []"
    by (auto simp: matchAt_def split: if_splits)
  from h r inner obtain r' where r': "stripPrefix ''}/'' ?after = Some r'"
    and cap: "captureSegment r' = Some seg"
    by (auto simp: matchAt_def split: option.splits if_splits)
  from cap obtain rest where rest: "r' = seg @ rest" "seg \<noteq> []" "CHR ''/'' \<notin> set seg"
      "rest = [] \<or> hd rest = CHR ''/''"
    unfolding captureSegment_Some by blast
  have "s = (lit @ ''{'') @ r"
    using r by (simp only: stripPrefix_Some)
  moreover have "r = ?inner @ ?after"
    by simp
  moreover have "?after = ''}/'' @ r'"
    using r' by (simp only: stripPrefix_Some)
  ultimately have "s = [] @ lit @ ''{'' @ ?inner @ ''}/'' @ seg @ rest"
    using rest(1) by (metis append.assoc append_Nil)
  moreover have "CHR ''}'' \<notin> set ?inner"
    by (auto dest: set_takeWhileD)
  ultimately show "occursAt lit [] s seg"
    unfolding occursAt_def using inner rest(2,3,4) by blast
next
  assume "occursAt lit [] s seg"
  then obtain inner rest where s: "s = lit @ ''{'' @ inner @ ''}/'' @ seg @ rest"
    and inner: "inner \<noteq> []" "CHR ''}'' \<notin> set inner"
    and seg: "seg \<noteq> []" "CHR ''/'' \<notin> set seg" "rest = [] \<or> hd rest = CHR ''/''"
    unfolding occursAt_def append_Nil by blast
  let ?r = "inner @ ''}/'' @ seg @ rest"
  have r: "stripPrefix (lit @ ''{'') s = Some ?r"
    unfolding stripPrefix_Some using s by simp
  have tw: "takeWhile (\<lambda>c. c \<noteq> CHR ''}'') ?r = inner"
    using inner(2) by (intro takeWhile_run) auto
  have dw: "dropWhile (\<lambda>c. c \<noteq> CHR ''}'') ?r = ''}/'' @ seg @ rest"
    using inner(2) by (intro dropWhile_run) auto
  have r': "stripPrefix ''}/'' (''}/'' @ seg @ rest) = Some (seg @ rest)"
    unfolding stripPrefix_Some by simp
  have cap: "captureSegment (seg @ rest) = Some seg"
    unfolding captureSegment_Some using seg by blast
  show "matchAt lit s = Some seg"
    unfolding matchAt_def r using tw dw r' cap inner(1) by simp
qed

lemma occursAt_suffix:
  "occursAt lit pre path seg \<longleftrightarrow> (\<exists>suf. path = pre @ suf \<and> occursAt lit [] suf seg)"
  unfolding occursAt_def append_Nil by blast

lemma matchFirst_None:
  "matchFirst lit path = None \<longleftrightarrow> (\<forall>pre suf. path = pre @ suf \<longrightarrow> matchAt lit suf = None)"
proof (induction path)
  case Nil
  then show ?case by simp
next
  case (Cons c cs)
  show ?case
  proof
    assume h: "matchFirst lit (c # cs) = None"
    then have a: "matchAt lit (c # cs) = None" and b: "matchFirst lit cs = None"
      by (auto split: option.splits)
    show "\<forall>pre suf. c # cs = pre @ suf \<longrightarrow> matchAt lit suf = None"
    proof (intro allI impI)
      fix pre suf assume e: "c # cs = pre @ suf"
      show "matchAt lit suf = None"
      proof (cases pre)
        case Nil
        then show ?thesis using e a by simp
      next
        case (Cons p ps)
        then have "cs = ps @ suf" using e by simp
        then show ?thesis using b Cons.IH by blast
      qed
    qed
  next
    assume h: "\<forall>pre suf. c # cs = pre @ suf \<longrightarrow> matchAt lit suf = None"
    then have a: "matchAt lit (c # cs) = None"
      by (metis append_Nil)
    have "\<forall>pre suf. cs = pre @ suf \<longrightarrow> matchAt lit suf = None"
      using h by (metis append_Cons)
    then have "matchFirst lit cs = None" using Cons.IH by blast
    then show "matchFirst lit (c # cs) = None" using a by simp
  qed
qed

lemma matchFirst_Some:
  "matchFirst lit path = Some seg \<Longrightarrow>
     \<exists>pre suf. path = pre @ suf \<and> matchAt lit suf = Some seg \<and>
       (\<forall>pre' suf'. path = pre' @ suf' \<and> length pre' < length pre \<longrightarrow> matchAt lit suf' = None)"
proof (induction path)
  case Nil
  then show ?case by auto
next
  case (Cons c cs)
  show ?case
  proof (cases "matchAt lit (c # cs)")
    case (Some g)
    then have "g = seg" using Cons.prems by simp
    then have "c # cs = [] @ (c # cs) \<and> matchAt lit (c # cs) = Some seg \<and>
       (\<forall>pre' suf'. c # cs = pre' @ suf' \<and> length pre' < length ([]::string) \<longrightarrow> matchAt lit suf' = None)"
      using Some by simp
    then show ?thesis by blast
  next
    case None
    then have "matchFirst lit cs = Some seg" using Cons.prems by simp
    then obtain pre suf where ps: "cs = pre @ suf" "matchAt lit suf = Some seg"
      "\<forall>pre' suf'. cs = pre' @ suf' \<and> length pre' < length pre \<longrightarrow> matchAt lit suf' = None"
      using Cons.IH by blast
    have "\<forall>pre' suf'. c # cs = pre' @ suf' \<and> length pre' < length (c # pre) \<longrightarrow> matchAt lit suf' = None"
    proof (intro allI impI)
      fix pre' suf' assume e: "c # cs = pre' @ suf' \<and> length pre' < length (c # pre)"
      show "matchAt lit suf' = None"
      proof (cases pre')
        case Nil
        then show ?thesis using e None by simp
      next
        case (Cons p ps')
        then have "cs = ps' @ suf' \<and> length ps' < length pre" using e by simp
        then show ?thesis using ps(3) by blast
      qed
    qed
    moreover have "c # cs = (c # pre) @ suf" using ps(1) by simp
    ultimately show ?thesis using ps(2) by blast
  qed
qed

lemma matchFirst_leftmost:
  "matchFirst lit path = Some seg \<longleftrightarrow>
     (\<exists>pre. occursAt lit pre path seg \<and>
        (\<forall>pre' seg'. occursAt lit pre' path seg' \<longrightarrow> length pre \<le> length pre'))"
proof
  assume m: "matchFirst lit path = Some seg"
  obtain pre suf where ps: "path = pre @ suf" "matchAt lit suf = Some seg"
      "\<forall>pre' suf'. path = pre' @ suf' \<and> length pre' < length pre \<longrightarrow> matchAt lit suf' = None"
    using matchFirst_Some [OF m] by blast
  have "occursAt lit [] suf seg"
    using ps(2) by (simp only: matchAt_Some)
  then have o: "occursAt lit pre path seg"
    using ps(1) occursAt_suffix [of lit pre path seg] by blast
  have "\<forall>pre' seg'. occursAt lit pre' path seg' \<longrightarrow> length pre \<le> length pre'"
  proof (intro allI impI)
    fix pre' seg' assume "occursAt lit pre' path seg'"
    then obtain suf' where s': "path = pre' @ suf'" "occursAt lit [] suf' seg'"
      using occursAt_suffix [of lit pre' path seg'] by blast
    have m': "matchAt lit suf' = Some seg'"
      using s'(2) by (simp only: matchAt_Some)
    show "length pre \<le> length pre'"
    proof (rule ccontr)
      assume "\<not> length pre \<le> length pre'"
      then have "path = pre' @ suf' \<and> length pre' < length pre"
        using s'(1) by simp
      then have "matchAt lit suf' = None"
        using ps(3) by blast
      then show False using m' by simp
    qed
  qed
  then show "\<exists>pre. occursAt lit pre path seg \<and>
        (\<forall>pre' seg'. occursAt lit pre' path seg' \<longrightarrow> length pre \<le> length pre')"
    using o by blast
next
  assume "\<exists>pre. occursAt lit pre path seg \<and>
        (\<forall>pre' seg'. occursAt lit pre' path seg' \<longrightarrow> length pre \<le> length pre')"
  then obtain pre where o: "occursAt lit pre path seg"
    and least: "\<forall>pre' seg'. occursAt lit pre' path seg' \<longrightarrow> length pre \<le> length pre'"
    by blast
  from o obtain suf where s: "path = pre @ suf" "occursAt lit [] suf seg"
    using occursAt_suffix [of lit pre path seg] by blast
  have ms: "matchAt lit suf = Some seg"
    using s(2) by (simp only: matchAt_Some)
  have "matchFirst lit path \<noteq> None"
  proof
    assume "matchFirst lit path = None"
    then have "\<forall>pre suf. path = pre @ suf \<longrightarrow> matchAt lit suf = None"
      by (simp only: matchFirst_None)
    then have "matchAt lit suf = None"
      using s(1) by blast
    then show False using ms by simp
  qed
  then obtain g where g: "matchFirst lit path = Some g" by blast
  obtain pre0 suf0 where ps: "path = pre0 @ suf0" "matchAt lit suf0 = Some g"
      "\<forall>pre' suf'. path = pre' @ suf' \<and> length pre' < length pre0 \<longrightarrow> matchAt lit suf' = None"
    using matchFirst_Some [OF g] by blast
  have "occursAt lit [] suf0 g"
    using ps(2) by (simp only: matchAt_Some)
  then have "occursAt lit pre0 path g"
    using ps(1) occursAt_suffix [of lit pre0 path g] by blast
  then have le: "length pre \<le> length pre0" using least by blast
  have "\<not> length pre < length pre0"
  proof
    assume "length pre < length pre0"
    then have "matchAt lit suf = None"
      using ps(3) s(1) by blast
    then show False using ms by simp
  qed
  then have "length pre = length pre0"
    using le by simp
  moreover have "pre @ suf = pre0 @ suf0"
    using s(1) ps(1) by (rule trans [OF sym])
  ultimately have "suf = suf0"
    by simp
  then show "matchFirst lit path = Some seg"
    using g ps(2) ms by simp
qed

lemma matchFirst_no_occurrence:
  "matchFirst lit path = None \<longleftrightarrow> (\<forall>pre seg. \<not> occursAt lit pre path seg)"
proof
  assume "matchFirst lit path = None"
  then have n: "\<forall>pre suf. path = pre @ suf \<longrightarrow> matchAt lit suf = None"
    by (simp only: matchFirst_None)
  show "\<forall>pre seg. \<not> occursAt lit pre path seg"
  proof (intro allI notI)
    fix pre seg assume "occursAt lit pre path seg"
    then obtain suf where e: "path = pre @ suf" and o: "occursAt lit [] suf seg"
      using occursAt_suffix [of lit pre path seg] by blast
    have "matchAt lit suf = Some seg"
      using o by (simp only: matchAt_Some)
    moreover have "matchAt lit suf = None"
      using n e by blast
    ultimately show False by simp
  qed
next
  assume h: "\<forall>pre seg. \<not> occursAt lit pre path seg"
  have "\<forall>pre suf. path = pre @ suf \<longrightarrow> matchAt lit suf = None"
  proof (intro allI impI)
    fix pre suf assume e: "path = pre @ suf"
    show "matchAt lit suf = None"
    proof (cases "matchAt lit suf")
      case None
      then show ?thesis .
    next
      case (Some g)
      then have "occursAt lit [] suf g"
        by (simp only: matchAt_Some)
      then have "occursAt lit pre path g"
        using e occursAt_suffix [of lit pre path g] by blast
      then show ?thesis using h by blast
    qed
  qed
  then show "matchFirst lit path = None"
    by (simp only: matchFirst_None)
qed

lemma extractProduct_cases:
  "extractProduct path =
     (case matchFirst ''/accounts/'' path of
        Some seg \<Rightarrow> Some seg
      | None \<Rightarrow> matchFirst ''/zones/'' path)"
  unfolding extractProduct_def by (simp split: option.splits)

lemma matchFirst_nonempty: "matchFirst lit path = Some seg \<Longrightarrow> seg \<noteq> []"
proof -
  assume "matchFirst lit path = Some seg"
  then obtain pre where "occursAt lit pre path seg"
    unfolding matchFirst_leftmost by blast
  then show ?thesis
    unfolding occursAt_def by blast
qed

lemma extractProduct_nonempty: "extractProduct path = Some p \<Longrightarrow> p \<noteq> []"
  unfolding extractProduct_cases
  by (cases "matchFirst ''/accounts/'' path") (auto dest: matchFirst_nonempty)

lemma someMatches_strings:
  "someMatches h p (map JStr ts) = Inr (\<exists>tag\<in>set ts. lowerCase h tag = lowerCase h p)"
  by (induction ts) auto

lemma operationTags_typed:
  assumes "getMember h op ''tags'' = Inr tv"
    and "tv = JArr (map JStr ts) \<or> (\<not> truthy tv \<and> ts = [])"
  shows "operationTags h path op =
     Inr (map JStr (case extractProduct path of
                      None \<Rightarrow> ts
                    | Some p \<Rightarrow>
                        if \<exists>tag\<in>set ts. lowerCase h tag = lowerCase h p then ts else p # ts))"
proof -
  have s: "(if truthy tv then spread tv else Inr []) = Inr (map JStr ts)"
    using assms(2) by auto
  show ?thesis
  proof (cases "extractProduct path")
    case None
    then show ?thesis
      by (simp add: operationTags_def andThen_def assms(1) s)
  next
    case (Some p)
    have "p \<noteq> []" using Some by (rule extractProduct_nonempty)
    then show ?thesis
      using Some
      by (simp add: operationTags_def andThen_def assms(1) s someMatches_strings)
  qed
qed

lemma methodsLoop_keys:
  "methodsLoop h ms path pathItem spec = Inr emitted \<Longrightarrow>
     map fst emitted = filter (\<lambda>m. \<exists>op. getMember h pathItem m = Inr op \<and> truthy op) ms"
proof (induction ms arbitrary: emitted)
  case Nil
  then show ?case by simp
next
  case (Cons m ms)
  from Cons.prems obtain op where g: "getMember h pathItem m = Inr op"
    by (auto split: sum.splits)
  show ?case
  proof (cases "truthy op")
    case True
    from Cons.prems g True obtain entry later where
      l: "methodsLoop h ms path pathItem spec = Inr later" and r: "emitted = (m, entry) # later"
      by (auto split: sum.splits)
    show ?thesis using Cons.IH [OF l] g True r by simp
  next
    case False
    from Cons.prems g False have l: "methodsLoop h ms path pathItem spec = Inr emitted"
      by simp
    show ?thesis using Cons.IH [OF l] g False by simp
  qed
qed

lemma methodsLoop_entry:
  "methodsLoop h ms path pathItem spec = Inr emitted \<Longrightarrow>
   m \<in> set ms \<Longrightarrow> getMember h pathItem m = Inr op \<Longrightarrow> truthy op \<Longrightarrow>
     \<exists>entry. operationEntry h path op spec = Inr entry \<and> map_of emitted m = Some entry"
proof (induction ms arbitrary: emitted)
  case Nil
  then show ?case by simp
next
  case (Cons m' ms)
  from Cons.prems(1) obtain op' where g: "getMember h pathItem m' = Inr op'"
    by (auto split: sum.splits)
  show ?case
  proof (cases "truthy op'")
    case True
    from Cons.prems(1) g True obtain entry later where
      e: "operationEntry h path op' spec = Inr entry" and
      l: "methodsLoop h ms path pathItem spec = Inr later" and r: "emitted = (m', entry) # later"
      by (auto split: sum.splits)
    show ?thesis
    proof (cases "m = m'")
      case True
      then show ?thesis using e r g Cons.prems(3) by simp
    next
      case False
      then have "m \<in> set ms" using Cons.prems(2) by simp
      from Cons.IH [OF l this Cons.prems(3) Cons.prems(4)] show ?thesis
        using r False by simp
    qed
  next
    case False
    from Cons.prems(1) g False have l: "methodsLoop h ms path pathItem spec = Inr emitted"
      by simp
    have "m \<noteq> m'" using g False Cons.prems(3, 4) by auto
    then have "m \<in> set ms" using Cons.prems(2) by simp
    from Cons.IH [OF l this Cons.prems(3) Cons.prems(4)] show ?thesis .
  qed
qed

lemma methodsLoop_succeeds:
  "(\<forall>m\<in>set ms. \<exists>op. getMember h pathItem m = Inr op \<and>
       (truthy op \<longrightarrow> (\<exists>entry. operationEntry h path op spec = Inr entry))) \<Longrightarrow>
     \<exists>emitted. methodsLoop h ms path pathItem spec = Inr emitted"
proof (induction ms)
  case Nil
  show ?case by simp
next
  case (Cons m ms)
  from Cons.prems obtain op where g: "getMember h pathItem m = Inr op"
    and e: "truthy op \<longrightarrow> (\<exists>entry. operationEntry h path op spec = Inr entry)"
    by auto
  from Cons.prems have "\<exists>emitted. methodsLoop h ms path pathItem spec = Inr emitted"
    by (intro Cons.IH) simp
  then obtain later where l: "methodsLoop h ms path pathItem spec = Inr later" ..
  show ?case using g e l by (cases "truthy op") auto
qed

lemma pathsLoop_emits:
  "pathsLoop h entries spec = Inr reduced \<Longrightarrow>
   (p, item) \<in> set entries \<Longrightarrow> truthy item \<Longrightarrow> p \<noteq> ''__proto__'' \<Longrightarrow>
     \<exists>emitted. methodsLoop h HTTP_METHODS p item spec = Inr emitted \<and>
              (p, JObj emitted) \<in> set reduced"
proof (induction h entries spec arbitrary: reduced rule: pathsLoop.induct)
  case (1 h spec)
  then show ?case by simp
next
  case (2 h path pathItem rest spec)
  show ?case
  proof (cases "truthy pathItem")
    case False
    then have l: "pathsLoop h rest spec = Inr reduced" using 2(3) by simp
    have "(p, item) \<in> set rest" using 2(4, 5) False by auto
    from 2(1) [OF _ l this 2(5) 2(6)] False show ?thesis by simp
  next
    case True
    from 2(3) True obtain emitted later where
      m: "methodsLoop h HTTP_METHODS path pathItem spec = Inr emitted" and
      l: "pathsLoop h rest spec = Inr later" and
      r: "reduced = assign path (JObj emitted) later"
      by (auto split: sum.splits)
    show ?thesis
    proof (cases "(p, item) = (path, pathItem)")
      case True
      then show ?thesis using m r 2(6) by (auto simp: assign_def)
    next
      case False
      then have "(p, item) \<in> set rest" using 2(4) by auto
      from 2(2) [OF _ m l this 2(5) 2(6)] \<open>truthy pathItem\<close> show ?thesis
        using r by (auto simp: assign_def)
    qed
  qed
qed

lemma pathsLoop_only:
  "pathsLoop h entries spec = Inr reduced \<Longrightarrow> (p, v) \<in> set reduced \<Longrightarrow>
     \<exists>item emitted. (p, item) \<in> set entries \<and> truthy item \<and>
        methodsLoop h HTTP_METHODS p item spec = Inr emitted \<and> v = JObj emitted"
proof (induction h entries spec arbitrary: reduced rule: pathsLoop.induct)
  case (1 h spec)
  then show ?case by simp
next
  case (2 h path pathItem rest spec)
  show ?case
  proof (cases "truthy pathItem")
    case False
    then have l: "pathsLoop h rest spec = Inr reduced" using 2(3) by simp
    from 2(1) [OF _ l 2(4)] False show ?thesis by auto
  next
    case True
    from 2(3) True obtain emitted later where
      m: "methodsLoop h HTTP_METHODS path pathItem spec = Inr emitted" and
      l: "pathsLoop h rest spec = Inr later" and
      r: "reduced = assign path (JObj emitted) later"
      by (auto split: sum.splits)
    from 2(4) r have "(p, v) = (path, JObj emitted) \<or> (p, v) \<in> set later"
      by (auto simp: assign_def split: if_splits)
    then show ?thesis
    proof
      assume "(p, v) = (path, JObj emitted)"
      then show ?thesis using m True by auto
    next
      assume "(p, v) \<in> set later"
      from 2(2) [OF _ m l this] True show ?thesis by auto
    qed
  qed
qed

lemma generateSpecFile_Inr:
  "generateSpecFile h spec = Inr out \<longleftrightarrow>
     (\<exists>paths entries reduced.
        getMember h spec ''paths'' = Inr paths \<and>
        objectEntries (if truthy paths then paths else JObj []) = Inr entries \<and>
        pathsLoop h entries spec = Inr reduced \<and>
        out = JObj [(''paths'', JObj reduced)])"
  unfolding generateSpecFile_def andThen_Inr by auto

text \<open>
  C6. Product derivation tries the pattern for \<^verbatim>\<open>/accounts/{...}/\<close> first and
  the one for \<^verbatim>\<open>/zones/{...}/\<close> only when the first finds nothing. A pattern
  gives the segment of its leftmost occurrence in the path, and nothing exactly when it
  occurs nowhere. The three paths of the specification give \<^verbatim>\<open>workers\<close>,
  \<^verbatim>\<open>dns_records\<close> and no product.
\<close>

theorem extractProduct_patterns:
  "extractProduct path =
     (case matchFirst ''/accounts/'' path of
        Some seg \<Rightarrow> Some seg
      | None \<Rightarrow> matchFirst ''/zones/'' path) \<and>
   (matchFirst lit path = Some seg \<longleftrightarrow>
      (\<exists>pre. occursAt lit pre path seg \<and>
         (\<forall>pre' seg'. occursAt lit pre' path seg' \<longrightarrow> length pre \<le> length pre'))) \<and>
   (matchFirst lit path = None \<longleftrightarrow> (\<forall>pre seg. \<not> occursAt lit pre path seg)) \<and>
   extractProduct ''/accounts/{account_id}/workers/scripts'' = Some ''workers'' \<and>
   extractProduct ''/zones/{zone_id}/dns_records'' = Some ''dns_records'' \<and>
   extractProduct ''/user/tokens'' = None"
proof (intro conjI)
  show "extractProduct path =
     (case matchFirst ''/accounts/'' path of
        Some seg \<Rightarrow> Some seg
      | None \<Rightarrow> matchFirst ''/zones/'' path)"
    by (rule extractProduct_cases)
  show "matchFirst lit path = Some seg \<longleftrightarrow>
      (\<exists>pre. occursAt lit pre path seg \<and>
         (\<forall>pre' seg'. occursAt lit pre' path seg' \<longrightarrow> length pre \<le> length pre'))"
    by (rule matchFirst_leftmost)
  show "matchFirst lit path = None \<longleftrightarrow> (\<forall>pre seg. \<not> occursAt lit pre path seg)"
    by (rule matchFirst_no_occurrence)
  show "extractProduct ''/accounts/{account_id}/workers/scripts'' = Some ''workers''"
    by (simp add: extractProduct_def matchAt_def captureSegment_def)
  show "extractProduct ''/zones/{zone_id}/dns_records'' = Some ''dns_records''"
    by (simp add: extractProduct_def matchAt_def captureSegment_def)
  show "extractProduct ''/user/tokens'' = None"
    by (simp add: extractProduct_def matchAt_def captureSegment_def)
qed

theorem extractProduct_patterns_witness:
  "extractProduct ''/accounts/{}/x/zones/{z}/y/accounts/{a}/b'' = Some ''b'' \<and>
   matchFirst ''/zones/'' ''/accounts/{}/x/zones/{z}/y/accounts/{a}/b'' = Some ''y'' \<and>
   matchFirst ''/zones/'' ''/user/tokens'' = None \<and>
   extractProduct ''/accounts/{account_id}/workers/scripts'' = Some ''workers'' \<and>
   extractProduct ''/zones/{zone_id}/dns_records'' = Some ''dns_records'' \<and>
   extractProduct ''/user/tokens'' = None"
proof -
  have a: "matchFirst ''/accounts/'' ''/accounts/{}/x/zones/{z}/y/accounts/{a}/b'' = Some ''b''"
    by (simp add: matchAt_def captureSegment_def)
  have z: "matchFirst ''/zones/'' ''/accounts/{}/x/zones/{z}/y/accounts/{a}/b'' = Some ''y''"
    by (simp add: matchAt_def captureSegment_def)
  have n: "matchFirst ''/zones/'' ''/user/tokens'' = None"
    by (simp add: matchAt_def captureSegment_def)
  show ?thesis
    using extractProduct_patterns [of "''/accounts/{}/x/zones/{z}/y/accounts/{a}/b''" "''/zones/''" "''y''"]
      a z n
    by simp
qed

text \<open>
  C7. For an operation whose tags are a list of strings (or are absent or falsy), the
  derived product is put in front of the tags exactly when a product is derived and no
  tag has the same lower-case form as the product, whatever the host's
  \<^verbatim>\<open>toLowerCase\<close> is; otherwise the tags stay as they are. These are the tags
  of the operation entry. For the path \<^verbatim>\<open>/zones/{zone_id}/dns_records\<close> and the
  tags \<^verbatim>\<open>["DNS Records"]\<close> the result is
  \<^verbatim>\<open>["dns_records", "DNS Records"]\<close>, as the lower-case forms of the two strings
  differ.
\<close>

theorem product_tag_prepended:
  "(getMember h op ''tags'' = Inr tv \<and> (tv = JArr (map JStr ts) \<or> (\<not> truthy tv \<and> ts = [])) \<longrightarrow>
      (extractProduct path = Some p \<and> (\<forall>tag\<in>set ts. lowerCase h tag \<noteq> lowerCase h p) \<longrightarrow>
         operationTags h path op = Inr (map JStr (p # ts))) \<and>
      (extractProduct path = Some p \<and> (\<exists>tag\<in>set ts. lowerCase h tag = lowerCase h p) \<longrightarrow>
         operationTags h path op = Inr (map JStr ts)) \<and>
      (extractProduct path = None \<longrightarrow> operationTags h path op = Inr (map JStr ts))) \<and>
   (operationEntry h path op spec = Inr entry \<longrightarrow>
      (\<exists>tags. operationTags h path op = Inr tags \<and> ownProp entry ''tags'' = Some (JArr tags))) \<and>
   (lowerCase h ''DNS Records'' \<noteq> lowerCase h ''dns_records'' \<longrightarrow>
      operationTags h ''/zones/{zone_id}/dns_records''
          (JObj [(''tags'', JArr [JStr ''DNS Records''])])
        = Inr [JStr ''dns_records'', JStr ''DNS Records''])"
proof (intro conjI impI)
  assume t: "getMember h op ''tags'' = Inr tv \<and>
    (tv = JArr (map JStr ts) \<or> (\<not> truthy tv \<and> ts = []))"
  assume "extractProduct path = Some p \<and> (\<forall>tag\<in>set ts. lowerCase h tag \<noteq> lowerCase h p)"
  then show "operationTags h path op = Inr (map JStr (p # ts))"
    using operationTags_typed [of h op tv ts path] t by auto
next
  assume t: "getMember h op ''tags'' = Inr tv \<and>
    (tv = JArr (map JStr ts) \<or> (\<not> truthy tv \<and> ts = []))"
  assume "extractProduct path = Some p \<and> (\<exists>tag\<in>set ts. lowerCase h tag = lowerCase h p)"
  then show "operationTags h path op = Inr (map JStr ts)"
    using operationTags_typed [of h op tv ts path] t by auto
next
  assume t: "getMember h op ''tags'' = Inr tv \<and>
    (tv = JArr (map JStr ts) \<or> (\<not> truthy tv \<and> ts = []))"
  assume "extractProduct path = None"
  then show "operationTags h path op = Inr (map JStr ts)"
    using operationTags_typed [of h op tv ts path] t by auto
next
  assume "operationEntry h path op spec = Inr entry"
  from operationEntry_fields [OF this]
  show "\<exists>tags. operationTags h path op = Inr tags \<and> ownProp entry ''tags'' = Some (JArr tags)"
    by fastforce
next
  assume l: "lowerCase h ''DNS Records'' \<noteq> lowerCase h ''dns_records''"
  have e: "extractProduct ''/zones/{zone_id}/dns_records'' = Some ''dns_records''"
    by (simp add: extractProduct_def matchAt_def captureSegment_def)
  have g: "getMember h (JObj [(''tags'', JArr [JStr ''DNS Records''])]) ''tags''
      = Inr (JArr (map JStr [''DNS Records'']))"
    by (simp add: getMember_def)
  show "operationTags h ''/zones/{zone_id}/dns_records''
          (JObj [(''tags'', JArr [JStr ''DNS Records''])])
        = Inr [JStr ''dns_records'', JStr ''DNS Records'']"
    using operationTags_typed [OF g, of "[''DNS Records'']" "''/zones/{zone_id}/dns_records''"] e l
    by simp
qed

theorem product_tag_prepended_witness:
  "operationTags sampleHost ''/accounts/{account_id}/workers/scripts''
       (JObj [(''tags'', JArr [JStr ''Scripts''])])
     = Inr [JStr ''workers'', JStr ''Scripts''] \<and>
   operationTags sampleHost ''/accounts/{account_id}/workers/scripts''
       (JObj [(''tags'', JArr [JStr ''Scripts'', JStr ''WORKERS''])])
     = Inr [JStr ''Scripts'', JStr ''WORKERS''] \<and>
   operationTags sampleHost (''/accounts/{a}/CAF'' @ [CHR 0xC9])
       (JObj [(''tags'', JArr [JStr (''caf'' @ [CHR 0xE9])])])
     = Inr [JStr (''caf'' @ [CHR 0xE9])] \<and>
   operationTags sampleHost ''/user/tokens'' (JObj [(''summary'', JStr ''List tokens'')])
     = Inr [] \<and>
   operationEntry sampleHost ''/user/tokens'' (JObj [(''summary'', JStr ''List tokens'')]) chainDoc
     = Inr (JObj [(''summary'', JStr ''List tokens''), (''description'', JUndef),
                  (''tags'', JArr []), (''parameters'', JUndef), (''requestBody'', JUndef),
                  (''responses'', JUndef)]) \<and>
   operationTags sampleHost ''/zones/{zone_id}/dns_records''
       (JObj [(''tags'', JArr [JStr ''DNS Records''])])
     = Inr [JStr ''dns_records'', JStr ''DNS Records'']"
proof -
  have e: "extractProduct ''/accounts/{account_id}/workers/scripts'' = Some ''workers''"
    "extractProduct ''/user/tokens'' = None"
    "extractProduct (''/accounts/{a}/CAF'' @ [CHR 0xC9]) = Some (''CAF'' @ [CHR 0xC9])"
    by (simp_all add: extractProduct_def matchAt_def captureSegment_def)
  have l: "lowerCase sampleHost ''Scripts'' \<noteq> lowerCase sampleHost ''workers''"
    "lowerCase sampleHost ''WORKERS'' = lowerCase sampleHost ''workers''"
    "lowerCase sampleHost (''caf'' @ [CHR 0xE9]) = lowerCase sampleHost (''CAF'' @ [CHR 0xC9])"
    "lowerCase sampleHost ''DNS Records'' \<noteq> lowerCase sampleHost ''dns_records''"
    by code_simp+
  have g: "getMember sampleHost (JObj [(''summary'', JStr ''List tokens'')]) ''tags'' = Inr JUndef"
    by (simp add: getMember_def viaHost_def sampleHost_def)
  have o: "operationEntry sampleHost ''/user/tokens'' (JObj [(''summary'', JStr ''List tokens'')]) chainDoc
     = Inr (JObj [(''summary'', JStr ''List tokens''), (''description'', JUndef),
                  (''tags'', JArr []), (''parameters'', JUndef), (''requestBody'', JUndef),
                  (''responses'', JUndef)])"
    by (simp add: operationEntry_def operationTags_def andThen_def getMember_def viaHost_def
          sampleHost_def e resolve_def)
  show ?thesis
    using e l g o
      product_tag_prepended [of sampleHost "JObj [(''tags'', JArr [JStr ''Scripts''])]"
        "JArr [JStr ''Scripts'']" "[''Scripts'']"
        "''/accounts/{account_id}/workers/scripts''" "''workers''" chainDoc JNull]
      product_tag_prepended [of sampleHost "JObj [(''tags'', JArr [JStr ''Scripts'', JStr ''WORKERS''])]"
        "JArr [JStr ''Scripts'', JStr ''WORKERS'']"
        "[''Scripts'', ''WORKERS'']" "''/accounts/{account_id}/workers/scripts''" "''workers''"
        chainDoc JNull]
      product_tag_prepended [of sampleHost "JObj [(''tags'', JArr [JStr (''caf'' @ [CHR 0xE9])])]"
        "JArr [JStr (''caf'' @ [CHR 0xE9])]"
        "[''caf'' @ [CHR 0xE9]]" "''/accounts/{a}/CAF'' @ [CHR 0xC9]" "''CAF'' @ [CHR 0xC9]"
        chainDoc JNull]
      product_tag_prepended [of sampleHost "JObj [(''summary'', JStr ''List tokens'')]" JUndef "[]"
        "''/user/tokens''" "''x''" chainDoc JNull]
    by (simp add: getMember_def)
qed

text \<open>
  C8. A method key that is present gets no operation record when its value is falsy: a
  path item \<^verbatim>\<open>{"get": null}\<close> has the key \<^verbatim>\<open>get\<close>, and its reduced
  record is empty.
\<close>

theorem present_falsy_method_skipped:
  "ownProp (JObj [(''get'', JNull)]) ''get'' = Some JNull \<and>
   methodsLoop sampleHost HTTP_METHODS ''/user/tokens'' (JObj [(''get'', JNull)])
       (JObj [(''paths'', JObj [(''/user/tokens'', JObj [(''get'', JNull)])])])
     = Inr [] \<and>
   generateSpecFile sampleHost
       (JObj [(''paths'', JObj [(''/user/tokens'', JObj [(''get'', JNull)])])])
     = Inr (JObj [(''paths'', JObj [(''/user/tokens'', JObj [])])])"
  by (simp add: HTTP_METHODS_def generateSpecFile_def andThen_def getMember_def viaHost_def
        sampleHost_def assign_def)

text \<open>
  C8, amended. The methods considered are get, post, put, patch and delete. When the loop
  over the methods of a path item returns, the reduced record holds, in this order, one
  operation entry for each of the five keys whose value in the path item is truthy, and
  no other key: none for a key whose value is falsy and none for any other method. The
  loop returns when the five reads and the entries of the truthy ones do. Of a reduced
  document that is produced, the paths are path entries with a truthy path item, each
  with the reduced record of its path item, and every such path entry but one named
  \<^verbatim>\<open>__proto__\<close> is among them.
\<close>

theorem methods_filtered:
  "HTTP_METHODS = [''get'', ''post'', ''put'', ''patch'', ''delete''] \<and>
   (methodsLoop h HTTP_METHODS path pathItem spec = Inr emitted \<longrightarrow>
      map fst emitted
        = filter (\<lambda>m. \<exists>op. getMember h pathItem m = Inr op \<and> truthy op) HTTP_METHODS \<and>
      (\<forall>m op. m \<in> set HTTP_METHODS \<and> getMember h pathItem m = Inr op \<and> truthy op \<longrightarrow>
         (\<exists>entry. operationEntry h path op spec = Inr entry \<and> map_of emitted m = Some entry)) \<and>
      (\<forall>m op. getMember h pathItem m = Inr op \<and> \<not> truthy op \<longrightarrow> map_of emitted m = None) \<and>
      (\<forall>m. m \<notin> set HTTP_METHODS \<longrightarrow> map_of emitted m = None)) \<and>
   ((\<forall>m\<in>set HTTP_METHODS. \<exists>op. getMember h pathItem m = Inr op \<and>
        (truthy op \<longrightarrow> (\<exists>entry. operationEntry h path op spec = Inr entry))) \<longrightarrow>
      (\<exists>emitted. methodsLoop h HTTP_METHODS path pathItem spec = Inr emitted)) \<and>
   (generateSpecFile h spec = Inr out \<longrightarrow>
      (\<exists>paths entries reduced.
         getMember h spec ''paths'' = Inr paths \<and>
         objectEntries (if truthy paths then paths else JObj []) = Inr entries \<and>
         out = JObj [(''paths'', JObj reduced)] \<and>
         (\<forall>p item. (p, item) \<in> set entries \<and> truthy item \<and> p \<noteq> ''__proto__'' \<longrightarrow>
            (\<exists>emitted. methodsLoop h HTTP_METHODS p item spec = Inr emitted \<and>
                       (p, JObj emitted) \<in> set reduced)) \<and>
         (\<forall>p v. (p, v) \<in> set reduced \<longrightarrow>
            (\<exists>item emitted. (p, item) \<in> set entries \<and> truthy item \<and>
               methodsLoop h HTTP_METHODS p item spec = Inr emitted \<and> v = JObj emitted))))"
proof (intro conjI impI allI)
  show "HTTP_METHODS = [''get'', ''post'', ''put'', ''patch'', ''delete'']"
    by (rule HTTP_METHODS_def)
next
  assume "methodsLoop h HTTP_METHODS path pathItem spec = Inr emitted"
  then show "map fst emitted
        = filter (\<lambda>m. \<exists>op. getMember h pathItem m = Inr op \<and> truthy op) HTTP_METHODS"
    by (rule methodsLoop_keys)
next
  fix m op
  assume "methodsLoop h HTTP_METHODS path pathItem spec = Inr emitted"
    and "m \<in> set HTTP_METHODS \<and> getMember h pathItem m = Inr op \<and> truthy op"
  then show "\<exists>entry. operationEntry h path op spec = Inr entry \<and> map_of emitted m = Some entry"
    by (intro methodsLoop_entry [of h HTTP_METHODS path pathItem spec emitted m op]) simp_all
next
  fix m op
  assume a: "methodsLoop h HTTP_METHODS path pathItem spec = Inr emitted"
    and b: "getMember h pathItem m = Inr op \<and> \<not> truthy op"
  have "m \<notin> set (map fst emitted)"
    unfolding methodsLoop_keys [OF a] using b by auto
  then show "map_of emitted m = None"
    by (simp add: map_of_eq_None_iff)
next
  fix m
  assume a: "methodsLoop h HTTP_METHODS path pathItem spec = Inr emitted"
    and b: "m \<notin> set HTTP_METHODS"
  have "m \<notin> set (map fst emitted)"
    unfolding methodsLoop_keys [OF a] using b by auto
  then show "map_of emitted m = None"
    by (simp add: map_of_eq_None_iff)
next
  assume "\<forall>m\<in>set HTTP_METHODS. \<exists>op. getMember h pathItem m = Inr op \<and>
        (truthy op \<longrightarrow> (\<exists>entry. operationEntry h path op spec = Inr entry))"
  then show "\<exists>emitted. methodsLoop h HTTP_METHODS path pathItem spec = Inr emitted"
    by (rule methodsLoop_succeeds)
next
  assume "generateSpecFile h spec = Inr out"
  then obtain paths entries reduced where
    g: "getMember h spec ''paths'' = Inr paths" and
    e: "objectEntries (if truthy paths then paths else JObj []) = Inr entries" and
    l: "pathsLoop h entries spec = Inr reduced" and
    o: "out = JObj [(''paths'', JObj reduced)]"
    unfolding generateSpecFile_Inr by blast
  have 1: "\<forall>p item. (p, item) \<in> set entries \<and> truthy item \<and> p \<noteq> ''__proto__'' \<longrightarrow>
            (\<exists>emitted. methodsLoop h HTTP_METHODS p item spec = Inr emitted \<and>
                       (p, JObj emitted) \<in> set reduced)"
    using pathsLoop_emits [OF l] by blast
  have 2: "\<forall>p v. (p, v) \<in> set reduced \<longrightarrow>
            (\<exists>item emitted. (p, item) \<in> set entries \<and> truthy item \<and>
               methodsLoop h HTTP_METHODS p item spec = Inr emitted \<and> v = JObj emitted)"
    using pathsLoop_only [OF l] by blast
  show "\<exists>paths entries reduced.
         getMember h spec ''paths'' = Inr paths \<and>
         objectEntries (if truthy paths then paths else JObj []) = Inr entries \<and>
         out = JObj [(''paths'', JObj reduced)] \<and>
         (\<forall>p item. (p, item) \<in> set entries \<and> truthy item \<and> p \<noteq> ''__proto__'' \<longrightarrow>
            (\<exists>emitted. methodsLoop h HTTP_METHODS p item spec = Inr emitted \<and>
                       (p, JObj emitted) \<in> set reduced)) \<and>
         (\<forall>p v. (p, v) \<in> set reduced \<longrightarrow>
            (\<exists>item emitted. (p, item) \<in> set entries \<and> truthy item \<and>
               methodsLoop h HTTP_METHODS p item spec = Inr emitted \<and> v = JObj emitted))"
    using g e o 1 2 by blast
qed

theorem methods_filtered_witness:
  "methodsLoop sampleHost HTTP_METHODS ''/user/tokens''
       (JObj [(''options'', JObj [(''summary'', JStr ''o'')]),
              (''get'', JObj [(''summary'', JStr ''g'')]),
              (''post'', JNull)])
       optionsDoc
     = Inr [(''get'',
        JObj [(''summary'', JStr ''g''), (''description'', JUndef), (''tags'', JArr []),
              (''parameters'', JUndef), (''requestBody'', JUndef), (''responses'', JUndef)])] \<and>
   filter (\<lambda>m. \<exists>op. getMember sampleHost
       (JObj [(''options'', JObj [(''summary'', JStr ''o'')]),
              (''get'', JObj [(''summary'', JStr ''g'')]),
              (''post'', JNull)]) m = Inr op \<and> truthy op) HTTP_METHODS = [''get''] \<and>
   generateSpecFile sampleHost optionsDoc =
     Inr (JObj [(''paths'', JObj [(''/user/tokens'', JObj [(''get'',
        JObj [(''summary'', JStr ''g''), (''description'', JUndef), (''tags'', JArr []),
              (''parameters'', JUndef), (''requestBody'', JUndef), (''responses'', JUndef)])])])])"
proof -
  let ?item = "JObj [(''options'', JObj [(''summary'', JStr ''o'')]),
              (''get'', JObj [(''summary'', JStr ''g'')]),
              (''post'', JNull)]"
  let ?entry = "JObj [(''summary'', JStr ''g''), (''description'', JUndef), (''tags'', JArr []),
              (''parameters'', JUndef), (''requestBody'', JUndef), (''responses'', JUndef)]"
  have e: "extractProduct ''/user/tokens'' = None"
    by (simp add: extractProduct_def matchAt_def captureSegment_def)
  have o: "operationEntry sampleHost ''/user/tokens'' (JObj [(''summary'', JStr ''g'')]) optionsDoc
      = Inr ?entry"
    by (simp add: operationEntry_def operationTags_def andThen_def getMember_def viaHost_def
          sampleHost_def e resolve_def)
  have m: "methodsLoop sampleHost HTTP_METHODS ''/user/tokens'' ?item optionsDoc
      = Inr [(''get'', ?entry)]"
    by (simp add: HTTP_METHODS_def getMember_def viaHost_def sampleHost_sel o)
  have g: "generateSpecFile sampleHost optionsDoc
      = Inr (JObj [(''paths'', JObj [(''/user/tokens'', JObj [(''get'', ?entry)])])])"
    by (simp add: generateSpecFile_def andThen_def optionsDoc_def getMember_def assign_def
          m [unfolded optionsDoc_def])
  show ?thesis
    using methods_filtered [of sampleHost "''/user/tokens''" ?item optionsDoc
        "[(''get'', ?entry)]"] m g
    by simp
qed

section \<open>Properties of the product list\<close>

lemma set_encounterOrder:
  "set (encounterOrder keys) = {p. \<exists>k\<in>set keys. extractProduct k = Some p}"
  by (induction keys) (auto split: option.splits)

lemma distinct_encounterOrder: "distinct (encounterOrder keys)"
  by (induction keys) (auto split: option.splits)

lemma mapSet_absent: "k \<notin> fst ` set m \<Longrightarrow> mapSet m k v = m @ [(k, v)]"
  by (induction m) auto

lemma mapGetOr0_absent: "k \<notin> fst ` set m \<Longrightarrow> mapGetOr0 m k = 0"
  by (induction m) (auto simp: mapGetOr0_def)

lemma bump_untouched:
  "k \<notin> fst ` set m \<Longrightarrow> map (\<lambda>(q, c). (q, if q = k then Suc c else c)) m = m"
  by (induction m) auto

lemma mapSet_present:
  "distinct (map fst m) \<Longrightarrow> k \<in> fst ` set m \<Longrightarrow>
     mapSet m k (mapGetOr0 m k + 1) = map (\<lambda>(q, c). (q, if q = k then Suc c else c)) m"
proof (induction m)
  case Nil
  then show ?case by simp
next
  case (Cons e m)
  obtain q c where e: "e = (q, c)" by (cases e)
  show ?case
  proof (cases "q = k")
    case True
    then have "k \<notin> fst ` set m" using Cons.prems(1) e by auto
    then show ?thesis using True e by (simp add: mapGetOr0_def bump_untouched)
  next
    case False
    then have "mapGetOr0 (e # m) k = mapGetOr0 m k"
      using e by (simp add: mapGetOr0_def)
    then show ?thesis using False e Cons by auto
  qed
qed

lemma keys_mapSet: "fst ` set (mapSet m k v) = insert k (fst ` set m)"
  by (induction m) force+

lemma distinct_mapSet: "distinct (map fst m) \<Longrightarrow> distinct (map fst (mapSet m k v))"
  by (induction m) (auto simp: keys_mapSet)

lemma countOf_Cons:
  "countOf (k # keys) p = (if extractProduct k = Some p then Suc (countOf keys p) else countOf keys p)"
  by (simp add: countOf_def)

lemma countProducts_general:
  "distinct (map fst acc) \<Longrightarrow>
     countProducts keys acc =
       map (\<lambda>(q, c). (q, c + countOf keys q)) acc @
       map (\<lambda>q. (q, countOf keys q)) (filter (\<lambda>q. q \<notin> fst ` set acc) (encounterOrder keys))"
proof (induction keys arbitrary: acc)
  case Nil
  then show ?case by (simp add: countOf_def)
next
  case (Cons k keys)
  show ?case
  proof (cases "extractProduct k")
    case None
    then show ?thesis using Cons by (simp add: countOf_Cons)
  next
    case (Some p)
    then have ne: "p \<noteq> []" by (rule extractProduct_nonempty)
    let ?acc' = "mapSet acc p (mapGetOr0 acc p + 1)"
    have d': "distinct (map fst ?acc')" using Cons.prems by (rule distinct_mapSet)
    have step: "countProducts (k # keys) acc = countProducts keys ?acc'"
      using Some ne by simp
    have ih: "countProducts keys ?acc' =
       map (\<lambda>(q, c). (q, c + countOf keys q)) ?acc' @
       map (\<lambda>q. (q, countOf keys q)) (filter (\<lambda>q. q \<notin> fst ` set ?acc') (encounterOrder keys))"
      using d' by (rule Cons.IH)
    have keys': "fst ` set ?acc' = insert p (fst ` set acc)" by (rule keys_mapSet)
    show ?thesis
    proof (cases "p \<in> fst ` set acc")
      case True
      have a: "?acc' = map (\<lambda>(q, c). (q, if q = p then Suc c else c)) acc"
        using Cons.prems True by (rule mapSet_present)
      have f: "filter (\<lambda>q. q \<notin> fst ` set ?acc') (encounterOrder keys)
             = filter (\<lambda>q. q \<notin> fst ` set acc) (encounterOrder (k # keys))"
        using True Some keys' by (auto simp: insert_absorb intro: filter_cong)
      have m: "map (\<lambda>(q, c). (q, c + countOf keys q)) ?acc'
             = map (\<lambda>(q, c). (q, c + countOf (k # keys) q)) acc"
        unfolding a using Some by (auto simp: countOf_Cons)
      have c: "map (\<lambda>q. (q, countOf keys q)) (filter (\<lambda>q. q \<notin> fst ` set acc) (encounterOrder (k # keys)))
             = map (\<lambda>q. (q, countOf (k # keys) q)) (filter (\<lambda>q. q \<notin> fst ` set acc) (encounterOrder (k # keys)))"
        using True Some by (auto simp: countOf_Cons)
      show ?thesis unfolding step ih f m c ..
    next
      case False
      have a: "?acc' = acc @ [(p, 1)]"
        using False by (simp add: mapSet_absent mapGetOr0_absent)
      have f: "filter (\<lambda>q. q \<notin> fst ` set acc) (encounterOrder (k # keys))
             = p # filter (\<lambda>q. q \<notin> fst ` set ?acc') (encounterOrder keys)"
        using False Some keys' by (auto intro: filter_cong)
      have m: "map (\<lambda>(q, c). (q, c + countOf keys q)) acc
             = map (\<lambda>(q, c). (q, c + countOf (k # keys) q)) acc"
        using False Some by (force simp: countOf_Cons)
      have c: "map (\<lambda>q. (q, countOf keys q)) (filter (\<lambda>q. q \<notin> fst ` set ?acc') (encounterOrder keys))
             = map (\<lambda>q. (q, countOf (k # keys) q)) (filter (\<lambda>q. q \<notin> fst ` set ?acc') (encounterOrder keys))"
        using Some keys' by (auto simp: countOf_Cons)
      have "countProducts (k # keys) acc =
          map (\<lambda>(q, c). (q, c + countOf keys q)) acc @ [(p, 1 + countOf keys p)] @
          map (\<lambda>q. (q, countOf keys q)) (filter (\<lambda>q. q \<notin> fst ` set ?acc') (encounterOrder keys))"
        unfolding step ih unfolding a by simp
      also have "\<dots> = map (\<lambda>(q, c). (q, c + countOf (k # keys) q)) acc @
          map (\<lambda>q. (q, countOf (k # keys) q)) (filter (\<lambda>q. q \<notin> fst ` set acc) (encounterOrder (k # keys)))"
        unfolding f m c using Some by (simp add: countOf_Cons)
      finally show ?thesis .
    qed
  qed
qed

lemma countProducts_empty:
  "countProducts keys [] = map (\<lambda>q. (q, countOf keys q)) (encounterOrder keys)"
  using countProducts_general [of "[]" keys] by simp

lemma insertBy_insort_key:
  "insertBy byCountDesc x ys = insort_key (\<lambda>a. - int (snd a)) x ys"
  by (induction ys) (simp_all add: byCountDesc_def)

lemma sortBy_sort_key: "sortBy byCountDesc xs = sort_key (\<lambda>a. - int (snd a)) xs"
  unfolding sortBy_def sort_key_def by (induction xs) (simp_all add: insertBy_insort_key)

lemma sortedProducts_sort_key:
  "sortedProducts keys =
     sort_key (\<lambda>a. - int (snd a)) (map (\<lambda>q. (q, countOf keys q)) (encounterOrder keys))"
  by (simp add: sortedProducts_def sortBy_sort_key countProducts_empty)

lemma sortedProducts_counts: "e \<in> set (sortedProducts keys) \<Longrightarrow> snd e = countOf keys (fst e)"
  unfolding sortedProducts_sort_key by auto

lemma productList_distinct: "distinct (productList keys)"
proof -
  let ?xs = "map (\<lambda>q. (q, countOf keys q)) (encounterOrder keys)"
  have "map fst ?xs = encounterOrder keys"
    by (simp add: comp_def)
  then have "distinct (map fst ?xs)"
    by (simp only: distinct_encounterOrder)
  then have "distinct ?xs" "inj_on fst (set ?xs)"
    by (simp_all only: distinct_map)
  then show ?thesis
    unfolding productList_def sortedProducts_sort_key
    by (simp only: distinct_map distinct_sort set_sort)
qed

lemma productList_set:
  "set (productList keys) = {p. \<exists>k\<in>set keys. extractProduct k = Some p}"
proof -
  have "set (productList keys) = set (encounterOrder keys)"
    unfolding productList_def sortedProducts_sort_key by (simp add: image_comp comp_def)
  then show ?thesis by (simp only: set_encounterOrder)
qed

lemma productList_descending:
  assumes "i < j" "j < length (productList keys)"
  shows "countOf keys (productList keys ! j) \<le> countOf keys (productList keys ! i)"
proof -
  let ?s = "sortedProducts keys"
  have len: "j < length ?s" "i < length ?s"
    using assms by (simp_all add: productList_def)
  have "sorted (map (\<lambda>a. - int (snd a)) ?s)"
    unfolding sortedProducts_sort_key by (rule sorted_sort_key)
  then have "map (\<lambda>a. - int (snd a)) ?s ! i \<le> map (\<lambda>a. - int (snd a)) ?s ! j"
    using assms(1) len by (intro sorted_nth_mono) simp_all
  then have "snd (?s ! j) \<le> snd (?s ! i)"
    using len by simp
  moreover have "snd (?s ! j) = countOf keys (fst (?s ! j))" "snd (?s ! i) = countOf keys (fst (?s ! i))"
    using len by (simp_all add: sortedProducts_counts)
  ultimately show ?thesis
    using len by (simp add: productList_def)
qed

lemma productList_stable:
  "filter (\<lambda>p. countOf keys p = n) (productList keys)
     = filter (\<lambda>p. countOf keys p = n) (encounterOrder keys)"
proof -
  let ?f = "\<lambda>a :: string \<times> nat. - int (snd a)"
  let ?xs = "map (\<lambda>q. (q, countOf keys q)) (encounterOrder keys)"
  have "filter (\<lambda>p. countOf keys p = n) (productList keys)
      = map fst (filter (\<lambda>e. countOf keys (fst e) = n) (sortedProducts keys))"
    by (simp add: productList_def filter_map comp_def)
  also have "filter (\<lambda>e. countOf keys (fst e) = n) (sortedProducts keys)
      = filter (\<lambda>e. ?f e = - int n) (sortedProducts keys)"
    by (rule filter_cong) (auto simp: sortedProducts_counts)
  also have "\<dots> = filter (\<lambda>e. ?f e = - int n) ?xs"
    unfolding sortedProducts_sort_key by (rule sort_key_stable)
  also have "map fst \<dots> = filter (\<lambda>p. countOf keys p = n) (encounterOrder keys)"
    by (simp add: filter_map comp_def)
  finally show ?thesis .
qed

text \<open>
  C9. The product list holds every derived product exactly once. It is ordered by
  descending count of the path keys that derive the product, and products with the same
  count stand in the order in which the iteration over the path keys met them first. The
  script iterates over the path keys in sorted order, and writes no list when reading the
  keys raises.
\<close>

theorem product_list_order:
  "distinct (productList keys) \<and>
   set (productList keys) = {p. \<exists>k\<in>set keys. extractProduct k = Some p} \<and>
   (\<forall>i j. i < j \<and> j < length (productList keys) \<longrightarrow>
      countOf keys (productList keys ! j) \<le> countOf keys (productList keys ! i)) \<and>
   (\<forall>n. filter (\<lambda>p. countOf keys p = n) (productList keys)
         = filter (\<lambda>p. countOf keys p = n) (encounterOrder keys)) \<and>
   PRODUCTS h spec =
     andThen (getMember h spec ''paths'') (\<lambda>paths.
     andThen (objectKeys paths) (\<lambda>ks. Inr (productList (sort ks))))"
proof (intro conjI allI impI)
  show "distinct (productList keys)" by (rule productList_distinct)
  show "set (productList keys) = {p. \<exists>k\<in>set keys. extractProduct k = Some p}"
    by (rule productList_set)
  show "countOf keys (productList keys ! j) \<le> countOf keys (productList keys ! i)"
    if "i < j \<and> j < length (productList keys)" for i j
    using that by (intro productList_descending) simp_all
  show "filter (\<lambda>p. countOf keys p = n) (productList keys)
         = filter (\<lambda>p. countOf keys p = n) (encounterOrder keys)" for n
    by (rule productList_stable)
  show "PRODUCTS h spec =
     andThen (getMember h spec ''paths'') (\<lambda>paths.
     andThen (objectKeys paths) (\<lambda>ks. Inr (productList (sort ks))))"
    by (cases "getMember h spec ''paths''")
       (simp_all add: PRODUCTS_def pathKeys_def andThen_def split: sum.splits)
qed

theorem product_list_order_witness:
  "pathKeys sampleHost productsDoc = Inr productsKeys \<and>
   PRODUCTS sampleHost productsDoc = Inr [''b'', ''a'', ''c'', ''d''] \<and>
   distinct (productList productsKeys) \<and>
   countOf productsKeys ''b'' = 5 \<and>
   countOf productsKeys ''a'' = 3 \<and>
   countOf productsKeys ''c'' = 1 \<and>
   countOf productsKeys ''d'' = 1 \<and>
   encounterOrder productsKeys = [''a'', ''b'', ''c'', ''d''] \<and>
   filter (\<lambda>p. countOf productsKeys p = 1) (productList productsKeys)
     = filter (\<lambda>p. countOf productsKeys p = 1) (encounterOrder productsKeys)"
proof -
  have c: "countOf productsKeys ''b'' = 5" "countOf productsKeys ''a'' = 3"
    "countOf productsKeys ''c'' = 1" "countOf productsKeys ''d'' = 1"
    "encounterOrder productsKeys = [''a'', ''b'', ''c'', ''d'']"
    by code_simp+
  have k: "pathKeys sampleHost productsDoc = Inr productsKeys"
    by code_simp
  have p: "PRODUCTS sampleHost productsDoc = Inr [''b'', ''a'', ''c'', ''d'']"
    by code_simp
  show ?thesis
    using product_list_order [of productsKeys sampleHost productsDoc] k p c
    by simp
qed

end
